theory Spec2Isabelle
  imports Complex_Main "HOL-Library.Multiset"
begin

section \<open>Python values used by the evaluation code\<close>

text \<open>
  Exceptions of the source are values: a function that can raise returns
  \<open>error + 'a\<close>, with \<open>Inl\<close> for the exception.
\<close>

datatype error = AssertionError | ValueError | KeyError | TypeError | OverflowError

text \<open>
  A Python \<open>str\<close> is a sequence of Unicode code points, modelled as a list of natural
  numbers. \<open>str\<close> turns an ASCII literal into such a list.
\<close>

type_synonym codepoint = nat

type_synonym pystr = "codepoint list"

definition str :: "string \<Rightarrow> pystr" where
  "str s = map of_char s"

text \<open>
  The whitespace of \<open>str.split()\<close> and \<open>str.strip()\<close>: the 29 code points for which
  \<open>str.isspace\<close> holds.
\<close>

definition isspace :: "codepoint \<Rightarrow> bool" where
  "isspace c = (c \<in> set [0x09, 0x0A, 0x0B, 0x0C, 0x0D, 0x1C, 0x1D, 0x1E, 0x1F, 0x20,
     0x85, 0xA0, 0x1680, 0x2000, 0x2001, 0x2002, 0x2003, 0x2004, 0x2005, 0x2006, 0x2007,
     0x2008, 0x2009, 0x200A, 0x2028, 0x2029, 0x202F, 0x205F, 0x3000])"

text \<open>\<open>string.punctuation\<close>: the 32 ASCII punctuation characters.\<close>

definition string_punctuation :: pystr where
  "string_punctuation =
     [0x21, 0x22, 0x23, 0x24, 0x25, 0x26, 0x27, 0x28, 0x29, 0x2A, 0x2B, 0x2C, 0x2D, 0x2E,
      0x2F, 0x3A, 0x3B, 0x3C, 0x3D, 0x3E, 0x3F, 0x40, 0x5B, 0x5C, 0x5D, 0x5E, 0x5F, 0x60,
      0x7B, 0x7C, 0x7D, 0x7E]"

text \<open>
  The tables of the Unicode character database that \<open>str.lower()\<close> reads are not part
  of the source and are parameters: the full lowercase mapping of a code point (one to
  three code points) and the properties Cased and Case_Ignorable.
\<close>

record unicode_tables =
  to_lower_full :: "codepoint \<Rightarrow> pystr"
  cased :: "codepoint \<Rightarrow> bool"
  case_ignorable :: "codepoint \<Rightarrow> bool"

text \<open>
  \<open>text.lower()\<close> maps every code point by the full lowercase mapping, except the
  Greek capital sigma U+03A3: it becomes the final sigma U+03C2 when a cased character
  comes before it and none after it, case-ignorable characters being skipped on both
  sides, and the small sigma U+03C3 otherwise. \<open>preceding\<close> is the list of the characters
  before the sigma, the nearest first.
\<close>

definition final_sigma :: "unicode_tables \<Rightarrow> pystr \<Rightarrow> pystr \<Rightarrow> bool" where
  "final_sigma U preceding following =
     ((case dropWhile (case_ignorable U) preceding of [] \<Rightarrow> False | c # _ \<Rightarrow> cased U c)
      \<and> (case dropWhile (case_ignorable U) following of [] \<Rightarrow> True | c # _ \<Rightarrow> \<not> cased U c))"

fun lower_from :: "unicode_tables \<Rightarrow> pystr \<Rightarrow> pystr \<Rightarrow> pystr" where
  "lower_from U preceding [] = []"
| "lower_from U preceding (c # cs) =
     (if c = 0x3A3 then [if final_sigma U preceding cs then 0x3C2 else 0x3C3]
      else to_lower_full U c)
     @ lower_from U (c # preceding) cs"

definition lower :: "unicode_tables \<Rightarrow> pystr \<Rightarrow> pystr" where
  "lower U text = lower_from U [] text"

text \<open>
  \<open>text.split()\<close> with no separator: the maximal runs of non-whitespace characters,
  in order. \<open>cur\<close> is the run being read.
\<close>

fun split_from :: "pystr \<Rightarrow> pystr \<Rightarrow> pystr list" where
  "split_from cur [] = (if cur = [] then [] else [cur])"
| "split_from cur (c # cs) =
     (if isspace c
      then (if cur = [] then split_from [] cs else cur # split_from [] cs)
      else split_from (cur @ [c]) cs)"

definition split :: "pystr \<Rightarrow> pystr list" where
  "split text = split_from [] text"

text \<open>\<open>text.strip()\<close>: leading and trailing whitespace removed.\<close>

definition strip :: "pystr \<Rightarrow> pystr" where
  "strip text = rev (dropWhile isspace (rev (dropWhile isspace text)))"

text \<open>\<open>sep.join(parts)\<close>.\<close>

fun join :: "pystr \<Rightarrow> pystr list \<Rightarrow> pystr" where
  "join sep [] = []"
| "join sep [x] = x"
| "join sep (x # y # ys) = x @ sep @ join sep (y # ys)"

section \<open>Answer normalisation and exact match\<close>

definition white_space_fix :: "pystr \<Rightarrow> pystr" where
  "white_space_fix text = join [0x20] (split text)"

definition remove_punc :: "pystr \<Rightarrow> pystr" where
  "remove_punc text =
     (let exclude = set string_punctuation
      in filter (\<lambda>ch. ch \<notin> exclude) text)"

definition normalize_answer :: "unicode_tables \<Rightarrow> pystr \<Rightarrow> pystr" where
  "normalize_answer U s = white_space_fix (remove_punc (lower U s))"

text \<open>\<open>float(a == b)\<close> is 1.0 for \<open>True\<close> and 0.0 for \<open>False\<close>.\<close>

definition exact_match :: "unicode_tables \<Rightarrow> pystr \<Rightarrow> pystr \<Rightarrow> real" where
  "exact_match U prediction reference =
     (if normalize_answer U prediction = normalize_answer U reference then 1 else 0)"

section \<open>Metrics\<close>

text \<open>
  The third-party scorers the module imports: the F-measures of
  \<open>RougeScorer(['rouge1'], use_stemmer=True)\<close> and
  \<open>RougeScorer(['rougeL'], use_stemmer=True)\<close> as functions of the prediction and the
  target, and \<open>nltk\<close>'s \<open>sentence_bleu\<close> as a function of the tokenised references
  and the tokenised hypothesis. The metric values are Python floats, modelled as real
  numbers: the rounding of the floating-point operations is left out.
\<close>

record scorers =
  rouge1_fmeasure :: "pystr \<Rightarrow> pystr \<Rightarrow> real"
  rougeL_fmeasure :: "pystr \<Rightarrow> pystr \<Rightarrow> real"
  sentence_bleu :: "pystr list list \<Rightarrow> pystr list \<Rightarrow> real"

text \<open>\<open>max(xs)\<close>: \<open>ValueError\<close> on an empty list, else the first greatest element.\<close>

fun py_max :: "real list \<Rightarrow> error + real" where
  "py_max [] = Inl ValueError"
| "py_max (x # xs) = Inr (foldl (\<lambda>m y. if y > m then y else m) x xs)"

definition metric_max_over_references ::
  "(pystr \<Rightarrow> pystr \<Rightarrow> real) \<Rightarrow> pystr \<Rightarrow> pystr list \<Rightarrow> error + real"
where
  "metric_max_over_references metric_fn prediction references =
     (let scores_for_references = map (\<lambda>ground_truth. metric_fn prediction ground_truth) references
      in py_max scores_for_references)"

definition rouge1_score :: "scorers \<Rightarrow> pystr \<Rightarrow> pystr \<Rightarrow> real" where
  "rouge1_score lib prediction reference = rouge1_fmeasure lib prediction reference"

definition rougeL_score :: "scorers \<Rightarrow> pystr \<Rightarrow> pystr \<Rightarrow> real" where
  "rougeL_score lib prediction reference = rougeL_fmeasure lib prediction reference"

definition bleu_score :: "scorers \<Rightarrow> pystr \<Rightarrow> pystr list \<Rightarrow> real" where
  "bleu_score lib prediction references =
     sentence_bleu lib (map (\<lambda>x. split (strip x)) references) (split (strip prediction))"

text \<open>
  \<open>zip(*lists)\<close>: the tuples of the i-th elements, up to the shortest list; no tuple
  at all when there is no list.
\<close>

function zip_star :: "'a list list \<Rightarrow> 'a list list" where
  "zip_star xss =
     (if xss = [] \<or> [] \<in> set xss then [] else map hd xss # zip_star (map tl xss))"
  by pat_completeness auto
termination
proof (relation "measure (\<lambda>xss. length (hd xss))")
  show "wf (measure (\<lambda>xss. length (hd xss)))" by simp
next
  fix xss :: "'a list list"
  assume "\<not> (xss = [] \<or> [] \<in> set xss)"
  then have "xss \<noteq> []" and "hd xss \<noteq> []"
    by (cases xss; force)+
  then show "(map tl xss, xss) \<in> measure (\<lambda>xss. length (hd xss))"
    by (simp add: hd_map)
qed

declare zip_star.simps [simp del]

text \<open>\<open>range(n)\<close> for an integer \<open>n\<close>: empty when \<open>n \<le> 0\<close>.\<close>

definition py_range :: "int \<Rightarrow> nat list" where
  "py_range n = [0..<nat n]"

definition n_grams_of :: "unicode_tables \<Rightarrow> int \<Rightarrow> pystr \<Rightarrow> pystr list list" where
  "n_grams_of U n prediction =
     (let tokens = split (strip (lower U prediction))
      in zip_star (map (\<lambda>i. drop i tokens) (py_range n)))"

fun extend_n_grams :: "unicode_tables \<Rightarrow> int \<Rightarrow> pystr list list \<Rightarrow> pystr list \<Rightarrow> pystr list list" where
  "extend_n_grams U n all_n_grams [] = all_n_grams"
| "extend_n_grams U n all_n_grams (prediction # predictions) =
     extend_n_grams U n (all_n_grams @ n_grams_of U n prediction) predictions"

definition diversity :: "unicode_tables \<Rightarrow> pystr list \<Rightarrow> int \<Rightarrow> real" where
  "diversity U predictions n =
     (let all_n_grams = extend_n_grams U n [] predictions
      in if length all_n_grams = 0 then 1
         else real (card (set all_n_grams)) / real (length all_n_grams))"

definition gram_length :: "pystr \<Rightarrow> real" where
  "gram_length prediction = real (length (split (strip prediction)))"

text \<open>
  \<open>numpy\<close>: \<open>a.mean()\<close>, \<open>a.std()\<close> (the square root of the mean of the squared
  absolute deviations from the mean) and \<open>np.sqrt(len(a))\<close>.
\<close>

definition np_mean :: "real list \<Rightarrow> real" where
  "np_mean a = sum_list a / real (length a)"

definition np_std :: "real list \<Rightarrow> real" where
  "np_std a = sqrt (np_mean (map (\<lambda>x. \<bar>x - np_mean a\<bar> ^ 2) a))"

definition std_err :: "real list \<Rightarrow> real" where
  "std_err a = np_std a / sqrt (real (length a))"

text \<open>
  A list comprehension whose body can raise: the first exception ends it.
\<close>

fun comprehension :: "('a \<Rightarrow> error + 'b) \<Rightarrow> 'a list \<Rightarrow> error + 'b list" where
  "comprehension f [] = Inr []"
| "comprehension f (x # xs) =
     (case f x of
        Inl e \<Rightarrow> Inl e
      | Inr y \<Rightarrow> (case comprehension f xs of Inl e \<Rightarrow> Inl e | Inr ys \<Rightarrow> Inr (y # ys)))"

section \<open>Batched generation\<close>

text \<open>
  One element of the list \<open>generate_language\<close> returns: the dictionary with the
  keys \<open>prompt\<close>, \<open>reference\<close> and \<open>generation\<close>.
\<close>

record gen_record =
  prompt :: pystr
  reference :: "pystr list"
  generation :: pystr

text \<open>
  The first loop of \<open>generate_language\<close>:
  \<open>for i in range(0, len(prompts), bsize): batches.append((prompts[i:i+bsize], references[i:i+bsize]))\<close>,
  for a positive step.
\<close>

function batches_from ::
  "nat \<Rightarrow> nat \<Rightarrow> pystr list \<Rightarrow> pystr list list \<Rightarrow> (pystr list \<times> pystr list list) list"
where
  "batches_from i bsize prompts references =
     (if i < length prompts \<and> 0 < bsize
      then (take bsize (drop i prompts), take bsize (drop i references))
             # batches_from (i + bsize) bsize prompts references
      else [])"
  by pat_completeness auto
termination
  by (relation "measure (\<lambda>(i, bsize, prompts, references). length prompts - i)") auto

declare batches_from.simps [simp del]

text \<open>
  \<open>range(0, n, step)\<close> raises \<open>ValueError\<close> for a zero step and is empty for a
  negative step and a stop \<open>n \<ge> 0\<close>.
\<close>

definition make_batches ::
  "pystr list \<Rightarrow> pystr list list \<Rightarrow> int \<Rightarrow> error + (pystr list \<times> pystr list list) list"
where
  "make_batches prompts references bsize =
     (if bsize = 0 then Inl ValueError
      else if bsize < 0 then Inr []
      else Inr (batches_from 0 (nat bsize) prompts references))"

text \<open>
  The second loop, over \<open>enumerate(batches)\<close>. The inference interface is the function
  \<open>generate_from_str\<close> from a batch of prompts to its \<open>output_strs\<close>; every other
  argument of the call is the same for all batches. The first component of the result
  is the list of the calls made (the argument of each call, in order), the second the
  records appended to \<open>all_generations\<close>.
\<close>

fun run_batches ::
  "(pystr list \<Rightarrow> pystr list) \<Rightarrow> int option \<Rightarrow> nat \<Rightarrow>
   (pystr list \<times> pystr list list) list \<Rightarrow> pystr list list \<times> gen_record list"
where
  "run_batches generate_from_str generation_batches i [] = ([], [])"
| "run_batches generate_from_str generation_batches i ((prompts, references) # batches) =
     (if (case generation_batches of None \<Rightarrow> False | Some k \<Rightarrow> int i \<ge> k)
      then ([], [])
      else
        let generations = generate_from_str prompts;
            new = map (\<lambda>(p, r, g). \<lparr>prompt = p, reference = r, generation = g\<rparr>)
                    (zip prompts (zip references generations));
            (calls, rest) = run_batches generate_from_str generation_batches (Suc i) batches
        in (prompts # calls, new @ rest))"

definition generate_language ::
  "(pystr list \<Rightarrow> pystr list) \<Rightarrow> pystr list \<Rightarrow> pystr list list \<Rightarrow> int \<Rightarrow> int option \<Rightarrow>
   pystr list list \<times> (error + gen_record list)"
where
  "generate_language generate_from_str prompts references bsize generation_batches =
     (if length prompts \<noteq> length references then ([], Inl AssertionError)
      else case make_batches prompts references bsize of
        Inl e \<Rightarrow> ([], Inl e)
      | Inr batches \<Rightarrow>
          (let (calls, all_generations) =
                 run_batches generate_from_str generation_batches 0 batches
           in (calls, Inr all_generations)))"

section \<open>Metric aggregation\<close>

text \<open>
  \<open>compute_metrics\<close>. Unpacking \<open>list(zip(*map(...)))\<close> into three names raises
  \<open>ValueError\<close> on an empty list of records. The returned dictionary is the list of
  its items, in insertion order; its keys are ASCII literals of the source and are
  written as such.
\<close>

definition compute_metrics ::
  "unicode_tables \<Rightarrow> scorers \<Rightarrow> gen_record list \<Rightarrow> error + (string \<times> real) list" where
  "compute_metrics U lib generation_data =
     (if generation_data = [] then Inl ValueError
      else
        let predictions = map generation generation_data;
            references = map reference generation_data
        in
        case comprehension (\<lambda>(pred, ref). metric_max_over_references (rouge1_score lib) pred ref)
               (zip predictions references) of
          Inl e \<Rightarrow> Inl e
        | Inr rouge1 \<Rightarrow>
        (case comprehension (\<lambda>(pred, ref). metric_max_over_references (rougeL_score lib) pred ref)
               (zip predictions references) of
          Inl e \<Rightarrow> Inl e
        | Inr rougel \<Rightarrow>
        (case comprehension (\<lambda>(pred, ref). metric_max_over_references (exact_match U) pred ref)
               (zip predictions references) of
          Inl e \<Rightarrow> Inl e
        | Inr exact_match_scores \<Rightarrow>
            let diversity2 = diversity U predictions 2;
                diversity3 = diversity U predictions 3;
                avg_length_scores = map gram_length predictions
            in Inr
              [(''rouge1'', np_mean rouge1),
               (''rouge1_err'', std_err rouge1),
               (''rougeL'', np_mean rougel),
               (''rougeL_err'', std_err rougel),
               (''exact_match'', np_mean exact_match_scores),
               (''exact_match_err'', std_err exact_match_scores),
               (''diversity2'', diversity2),
               (''diversity3'', diversity3),
               (''avg_length'', np_mean avg_length_scores),
               (''avg_length_err'', std_err avg_length_scores)])))"

section \<open>The reward filter script\<close>

text \<open>
  The values \<open>json.loads\<close> returns. An integer and a float are different values; a float
  is given by the real number it stands for (the infinities and NaN, which
  \<open>json.loads\<close> accepts as well, are left out). The keys and strings of a record play no
  part beyond the lookup of \<open>'reward'\<close> and are kept as byte strings.
\<close>

datatype json =
  JNull | JBool bool | JInt int | JFloat real | JStr string | JArr "json list"
| JObj "(string \<times> json) list"

text \<open>
  The sort key \<open>lambda x: sum(x['reward'])\<close>. The builtin \<open>sum\<close> is a parameter: what it
  returns for a list of floats is the result of floating-point additions, it raises
  \<open>OverflowError\<close> when an integer too large for a float is added to a float, and
  \<open>TypeError\<close> on values it cannot add. Its results are compared by \<open><\<close>, which
  orders the integers and the floats (no NaN among them) linearly. Subscripting a value
  that is not a dictionary with \<open>'reward'\<close> raises \<open>TypeError\<close>, a dictionary without the
  key raises \<open>KeyError\<close>.
\<close>

fun sort_key_fn :: "(json \<Rightarrow> error + 'k) \<Rightarrow> json \<Rightarrow> error + 'k" where
  "sort_key_fn builtin_sum (JObj kvs) =
     (case map_of kvs ''reward'' of None \<Rightarrow> Inl KeyError | Some v \<Rightarrow> builtin_sum v)"
| "sort_key_fn builtin_sum v = Inl TypeError"

text \<open>
  \<open>sorted(xs, key=..., reverse=True)\<close>: the keys are computed first, one per element;
  the sort is stable, and \<open>reverse=True\<close> keeps the elements with equal keys in
  their original order.
\<close>

definition sorted_reverse ::
  "('a \<Rightarrow> error + 'k::linorder) \<Rightarrow> 'a list \<Rightarrow> error + 'a list" where
  "sorted_reverse key xs =
     (case comprehension key xs of
        Inl e \<Rightarrow> Inl e
      | Inr keys \<Rightarrow> Inr (map snd (rev (sort_key fst (rev (zip keys xs))))))"

text \<open>
  \<open>percentage = 0.1\<close>. The product \<open>len(all_data) * percentage\<close> is taken over the reals;
  the double product truncates to the same integer for every length below \<open>10^15\<close>.
\<close>

definition percentage :: real where
  "percentage = 0.1"

text \<open>
  The script: \<open>all_data\<close> is the list of the parsed lines of the input file; the result
  is the list of the records whose \<open>json.dumps\<close> is written, one per line, to the
  output file. \<open>int(x)\<close> truncates towards zero. An exception of the sort ends the
  script before the output file is opened.
\<close>

definition filter_script ::
  "(json \<Rightarrow> error + 'k::linorder) \<Rightarrow> json list \<Rightarrow> error + json list" where
  "filter_script builtin_sum all_data =
     (case sorted_reverse (sort_key_fn builtin_sum) all_data of
        Inl e \<Rightarrow> Inl e
      | Inr s \<Rightarrow>
          (let all_data_filtered = take (nat \<lfloor>real (length all_data) * percentage\<rfloor>) s
           in Inr all_data_filtered))"

section \<open>Notions the statements use\<close>

text \<open>
  The batches as the specification describes them: batch \<open>j\<close> is the slice
  \<open>xs[j*bsize : (j+1)*bsize]\<close>, for \<open>j\<close> below \<open>ceil(len(xs) / bsize)\<close>.
\<close>

definition slices :: "nat \<Rightarrow> 'a list \<Rightarrow> 'a list list" where
  "slices bsize xs =
     map (\<lambda>j. take bsize (drop (j * bsize) xs)) [0..<(length xs + bsize - 1) div bsize]"

text \<open>
  The batches the loop processes: all of them, or the first \<open>k\<close> when
  \<open>generation_batches\<close> is \<open>k\<close>.
\<close>

definition processed :: "int option \<Rightarrow> 'a list \<Rightarrow> 'a list" where
  "processed generation_batches batches =
     (case generation_batches of None \<Rightarrow> batches | Some k \<Rightarrow> take (nat k) batches)"

text \<open>The records one batch contributes.\<close>

definition records_of ::
  "(pystr list \<Rightarrow> pystr list) \<Rightarrow> pystr list \<times> pystr list list \<Rightarrow> gen_record list" where
  "records_of generate_from_str batch =
     map (\<lambda>(p, r, g). \<lparr>prompt = p, reference = r, generation = g\<rparr>)
       (zip (fst batch) (zip (snd batch) (generate_from_str (fst batch))))"

text \<open>
  The greatest value of a metric for a record's generation over the record's references.
\<close>

definition best :: "(pystr \<Rightarrow> pystr \<Rightarrow> real) \<Rightarrow> gen_record \<Rightarrow> real" where
  "best metric_fn r = Max (metric_fn (generation r) ` set (reference r))"

text \<open>
  The arithmetic mean and the population standard deviation of a list of numbers, by
  their textbook definitions.
\<close>

definition arithmetic_mean :: "real list \<Rightarrow> real" where
  "arithmetic_mean xs = (\<Sum>i<length xs. xs ! i) / real (length xs)"

definition population_std :: "real list \<Rightarrow> real" where
  "population_std xs =
     sqrt ((\<Sum>i<length xs. (xs ! i - arithmetic_mean xs) ^ 2) / real (length xs))"

text \<open>
  The word-level n-grams of a list of tokens: its windows of \<open>n\<close> consecutive tokens.
\<close>

definition word_n_grams :: "nat \<Rightarrow> 'a list \<Rightarrow> 'a list list" where
  "word_n_grams n tokens = map (\<lambda>j. take n (drop j tokens)) [0..<length tokens + 1 - n]"

text \<open>
  Properties of the Unicode tables that statements below assume. Whitespace has no
  case: a whitespace character is its own lowercase, is neither cased nor
  case-ignorable, and no other character has whitespace in its lowercase. ASCII
  punctuation has no case: a punctuation character is its own lowercase.
\<close>

definition whitespace_uncased :: "unicode_tables \<Rightarrow> bool" where
  "whitespace_uncased U \<longleftrightarrow>
     (\<forall>c. isspace c \<longrightarrow> to_lower_full U c = [c] \<and> \<not> cased U c \<and> \<not> case_ignorable U c)
     \<and> (\<forall>c. \<not> isspace c \<longrightarrow> (\<forall>d\<in>set (to_lower_full U c). \<not> isspace d))"


text \<open>
  Two strings that differ in letter case only: they have the same length and, position
  by position, characters with the same lowercase.
\<close>

definition case_variants :: "unicode_tables \<Rightarrow> pystr \<Rightarrow> pystr \<Rightarrow> bool" where
  "case_variants U s t = list_all2 (\<lambda>c d. to_lower_full U c = to_lower_full U d) s t"

text \<open>
  The entries of the Unicode tables for the ASCII characters and for the Greek letters
  U+0391, U+03A3, U+03B1, U+03C2 and U+03C3, for the concrete strings below, which use
  these characters only. Every other code point is given no case here, which is not
  what Unicode says of it in general.
\<close>

definition ascii_greek_tables :: unicode_tables where
  "ascii_greek_tables =
     \<lparr>to_lower_full =
        (\<lambda>c. if (0x41 \<le> c \<and> c \<le> 0x5A) \<or> c = 0x391 \<or> c = 0x3A3 then [c + 0x20] else [c]),
      cased =
        (\<lambda>c. (0x41 \<le> c \<and> c \<le> 0x5A) \<or> (0x61 \<le> c \<and> c \<le> 0x7A)
              \<or> c \<in> set [0x391, 0x3A3, 0x3B1, 0x3C2, 0x3C3]),
      case_ignorable = (\<lambda>c. c \<in> set [0x27, 0x2E, 0x3A, 0x5E, 0x60])\<rparr>"

text \<open>
  Scorers and records for the concrete examples below. The scorers stand for the ROUGE
  and BLEU libraries: they are simple functions of the lengths of their arguments, not
  ROUGE or BLEU scores.
\<close>

definition example_scorers :: scorers where
  "example_scorers =
     \<lparr>rouge1_fmeasure = (\<lambda>p r. real (length r) / 10),
      rougeL_fmeasure = (\<lambda>p r. if length p = length r then 1 else 0),
      sentence_bleu = (\<lambda>rs h. 0)\<rparr>"

definition example_records :: "gen_record list" where
  "example_records =
     [\<lparr>prompt = str ''q1'',
       reference = [str ''a cat'', str ''the cat, the cat sat!''],
       generation = str ''The cat  the CAT sat''\<rparr>,
      \<lparr>prompt = str ''q2'',
       reference = [str ''dog'', str ''a kitty''],
       generation = str ''the cat''\<rparr>]"

section \<open>Properties of the string operations\<close>

lemma isspace_range:
  "isspace c \<Longrightarrow> c \<le> 0x20 \<or> c = 0x85 \<or> c = 0xA0 \<or> 0x1680 \<le> c"
  unfolding isspace_def by auto



lemma sigma_not_space: "\<not> isspace 0x3A3" "\<not> isspace 0x3C2" "\<not> isspace 0x3C3"
  using isspace_range [of "0x3A3"] isspace_range [of "0x3C2"] isspace_range [of "0x3C3"]
  by auto



lemma split_from_token:
  "\<forall>x\<in>set t. \<not> isspace x \<Longrightarrow> split_from cur (t @ rest) = split_from (cur @ t) rest"
  by (induction t arbitrary: cur) simp_all

lemma split_from_spaces:
  "\<forall>c\<in>set ws. isspace c \<Longrightarrow> split_from cur ws = (if cur = [] then [] else [cur])"
  by (induction ws arbitrary: cur) simp_all

lemma split_from_trailing:
  "\<forall>c\<in>set ws. isspace c \<Longrightarrow> split_from cur (xs @ ws) = split_from cur xs"
  by (induction xs arbitrary: cur) (simp_all add: split_from_spaces)

lemma split_from_leading: "split_from [] (dropWhile isspace xs) = split_from [] xs"
  by (induction xs) simp_all

lemma split_strip: "split (strip s) = split s"
proof -
  let ?t = "dropWhile isspace s"
  have "?t = rev (dropWhile isspace (rev ?t)) @ rev (takeWhile isspace (rev ?t))"
    by (metis rev_append rev_rev_ident takeWhile_dropWhile_id)
  moreover have "\<forall>c\<in>set (rev (takeWhile isspace (rev ?t))). isspace c"
    by (auto dest: set_takeWhileD)
  ultimately have "split_from [] (rev (dropWhile isspace (rev ?t))) = split_from [] ?t"
    by (metis split_from_trailing)
  then show ?thesis by (simp add: split_def strip_def split_from_leading)
qed



lemma following_space:
  assumes "\<not> case_ignorable U sp" "\<not> cased U sp"
  shows "(case dropWhile (case_ignorable U) (a @ sp # b) of [] \<Rightarrow> True | c # _ \<Rightarrow> \<not> cased U c)
       = (case dropWhile (case_ignorable U) a of [] \<Rightarrow> True | c # _ \<Rightarrow> \<not> cased U c)"
  using assms by (induction a) simp_all

lemma preceding_space:
  assumes "\<not> case_ignorable U sp" "\<not> cased U sp"
  shows "(case dropWhile (case_ignorable U) (a @ sp # b) of [] \<Rightarrow> False | c # _ \<Rightarrow> cased U c)
       = (case dropWhile (case_ignorable U) a of [] \<Rightarrow> False | c # _ \<Rightarrow> cased U c)"
  using assms by (induction a) simp_all

lemma final_sigma_space:
  assumes "\<not> case_ignorable U sp" "\<not> cased U sp"
  shows "final_sigma U pre (a @ sp # b) = final_sigma U pre a"
    and "final_sigma U (q @ sp # r) rest = final_sigma U q rest"
  unfolding final_sigma_def
  by (simp_all only: following_space [OF assms] preceding_space [OF assms])

lemma lower_from_preceding_space:
  assumes "\<not> case_ignorable U sp" "\<not> cased U sp"
  shows "lower_from U (q @ sp # r) b = lower_from U q b"
proof (induction b arbitrary: q)
  case Nil
  show ?case by simp
next
  case (Cons c b)
  from Cons [of "c # q"] show ?case
    by (simp add: final_sigma_space(2) [OF assms])
qed

lemma lower_from_space:
  assumes w: "whitespace_uncased U" and sp: "isspace sp"
  shows "lower_from U pre (a @ sp # b) = lower_from U pre a @ sp # lower_from U [] b"
proof -
  have n: "\<not> case_ignorable U sp" "\<not> cased U sp" and l: "to_lower_full U sp = [sp]"
    using w sp by (auto simp: whitespace_uncased_def)
  have s: "sp \<noteq> 0x3A3" using sp sigma_not_space(1) by auto
  show ?thesis
  proof (induction a arbitrary: pre)
    case Nil
    show ?case
      using lower_from_preceding_space [OF n, of "[]" pre b] s l by simp
  next
    case (Cons c a)
    show ?case
      by (simp add: Cons final_sigma_space(1) [OF n])
  qed
qed

lemma lower_from_no_space:
  assumes w: "whitespace_uncased U" and t: "\<forall>x\<in>set t. \<not> isspace x"
  shows "\<forall>x\<in>set (lower_from U pre t). \<not> isspace x"
  using t
proof (induction t arbitrary: pre)
  case Nil
  show ?case by simp
next
  case (Cons c t)
  have "\<forall>d\<in>set (to_lower_full U c). \<not> isspace d"
    using w Cons.prems by (auto simp: whitespace_uncased_def)
  then show ?case using Cons sigma_not_space by auto
qed

lemma split_lower_tokens:
  assumes w: "whitespace_uncased U"
  shows "\<forall>x\<in>set t. \<not> isspace x \<Longrightarrow>
     split (lower U (t @ s)) = filter (\<lambda>w. w \<noteq> []) (map (lower U) (split_from t s))"
proof (induction s arbitrary: t)
  case Nil
  have "\<forall>x\<in>set (lower U t). \<not> isspace x"
    using lower_from_no_space [OF w Nil] by (simp add: lower_def)
  then have "split (lower U t) = (if lower U t = [] then [] else [lower U t])"
    using split_from_token [of "lower U t" "[]" "[]"] by (simp add: split_def)
  moreover have "lower U [] = []" by (simp add: lower_def)
  ultimately show ?case by simp
next
  case (Cons c s)
  have le: "lower U [] = []" by (simp add: lower_def)
  show ?case
  proof (cases "isspace c")
    case True
    have ns: "\<forall>x\<in>set (lower U t). \<not> isspace x"
      using lower_from_no_space [OF w Cons.prems] by (simp add: lower_def)
    have "lower U (t @ c # s) = lower U t @ c # lower U s"
      using lower_from_space [OF w True, of "[]" t s] by (simp add: lower_def)
    then have "split (lower U (t @ c # s)) = split_from (lower U t) (c # lower U s)"
      using split_from_token [OF ns, of "[]" "c # lower U s"] by (simp add: split_def)
    also have "\<dots> = (if lower U t = [] then split (lower U s)
                       else lower U t # split (lower U s))"
      using True by (simp add: split_def)
    also have "split (lower U s) = filter (\<lambda>w. w \<noteq> []) (map (lower U) (split_from [] s))"
      using Cons.IH [of "[]"] by simp
    finally show ?thesis using True le by simp
  next
    case False
    then have "\<forall>x\<in>set (t @ [c]). \<not> isspace x" using Cons.prems by simp
    from Cons.IH [OF this] False show ?thesis by simp
  qed
qed

lemma split_lower:
  "whitespace_uncased U \<Longrightarrow> split (lower U s) = filter (\<lambda>w. w \<noteq> []) (map (lower U) (split s))"
  using split_lower_tokens [of U "[]" s] by (simp add: split_def)

lemma length_split_lower:
  "whitespace_uncased U \<Longrightarrow> length (split (lower U s)) \<le> length (split s)"
  by (simp add: split_lower)




lemma ascii_greek_whitespace: "whitespace_uncased ascii_greek_tables"
proof -
  have "to_lower_full ascii_greek_tables c = [c] \<and> \<not> cased ascii_greek_tables c
        \<and> \<not> case_ignorable ascii_greek_tables c" if "isspace c" for c
    using isspace_range [OF that] by (auto simp: ascii_greek_tables_def)
  moreover have "\<not> isspace d" if "\<not> isspace c" "d \<in> set (to_lower_full ascii_greek_tables c)" for c d
  proof (cases "d = c")
    case True
    then show ?thesis using that by simp
  next
    case False
    then have "(0x61 \<le> d \<and> d \<le> 0x7A) \<or> d = 0x3B1 \<or> d = 0x3C3"
      using that(2) by (auto simp: ascii_greek_tables_def split: if_splits)
    then show ?thesis using isspace_range [of d] by auto
  qed
  ultimately show ?thesis unfolding whitespace_uncased_def by blast
qed


lemmas string_eval = str_def exact_match_def normalize_answer_def white_space_fix_def split_def
  strip_def isspace_def remove_punc_def string_punctuation_def lower_def final_sigma_def
  ascii_greek_tables_def case_variants_def




section \<open>Properties of the batched generation\<close>

lemma count_step:
  assumes "0 < b" "0 < (m::nat)"
  shows "(m + b - 1) div b = Suc ((m - b + b - 1) div b)"
proof (cases "b \<le> m")
  case True
  define x where "x = m - b + b - 1"
  have "m + b - 1 = x + b" using True assms by (simp add: x_def)
  moreover have "(x + b) div b = Suc (x div b)" using assms by simp
  ultimately show ?thesis by (simp add: x_def)
next
  case False
  then have "m + b - 1 < 2 * b" "b \<le> m + b - 1" "m - b + b - 1 < b" using assms by auto
  then have "(m + b - 1) div b = 1" "(m - b + b - 1) div b = 0"
    by (auto simp: div_nat_eqI)
  then show ?thesis by simp
qed

lemma batches_from_slices:
  "0 < b \<Longrightarrow> batches_from i b ps rs =
     map (\<lambda>j. (take b (drop (i + j * b) ps), take b (drop (i + j * b) rs)))
       [0..<(length ps - i + b - 1) div b]"
proof (induction i b ps rs rule: batches_from.induct)
  case (1 i b ps rs)
  let ?f = "\<lambda>k. (take b (drop k ps), take b (drop k rs))"
  show ?case
  proof (cases "i < length ps")
    case True
    let ?c = "(length ps - (i + b) + b - 1) div b"
    have c: "(length ps - i + b - 1) div b = Suc ?c"
      using count_step [of b "length ps - i"] True "1.prems" by simp
    have "batches_from i b ps rs = ?f i # batches_from (i + b) b ps rs"
      using True "1.prems" by (subst batches_from.simps) simp
    also have "batches_from (i + b) b ps rs = map (\<lambda>j. ?f (i + b + j * b)) [0..<?c]"
      using "1.IH" True "1.prems" by simp
    also have "?f i # map (\<lambda>j. ?f (i + b + j * b)) [0..<?c]
        = map (\<lambda>j. ?f (i + j * b)) [0..<Suc ?c]"
      by (simp only: map_upt_Suc) (simp add: add.assoc)
    finally show ?thesis by (simp only: c)
  next
    case False
    then show ?thesis using "1.prems" by (subst batches_from.simps) simp
  qed
qed

lemma run_batches_eq:
  "run_batches gen gb i bs =
     (map fst (processed (map_option (\<lambda>k. k - int i) gb) bs),
      concat (map (records_of gen) (processed (map_option (\<lambda>k. k - int i) gb) bs)))"
proof (induction bs arbitrary: i)
  case Nil
  show ?case by (simp add: processed_def split: option.splits)
next
  case (Cons b bs)
  obtain ps rs where b: "b = (ps, rs)" by (cases b)
  show ?case
  proof (cases gb)
    case None
    then show ?thesis using Cons [of "Suc i"]
      by (simp add: b processed_def records_of_def)
  next
    case (Some k)
    show ?thesis
    proof (cases "k \<le> int i")
      case True
      then show ?thesis by (simp add: b Some processed_def)
    next
      case False
      then have "nat (k - int i) = Suc (nat (k - int (Suc i)))" by simp
      then show ?thesis using Cons [of "Suc i"] False
        by (simp add: b Some processed_def records_of_def del: of_nat_Suc)
    qed
  qed
qed

lemma make_batches_slices:
  assumes "1 \<le> bsize" "length prompts = length references"
  shows "make_batches prompts references bsize =
           Inr (zip (slices (nat bsize) prompts) (slices (nat bsize) references))"
proof -
  have "0 < nat bsize" using assms by simp
  from batches_from_slices [OF this, of 0 prompts references] assms
  show ?thesis
    by (simp add: make_batches_def slices_def zip_map_map zip_same_conv_map o_def split_def)
qed

lemma concat_slices_upto:
  "concat (map (\<lambda>j. take b (drop (i + j * b) xs)) [0..<c]) = take (c * b) (drop i xs)"
proof (induction c arbitrary: i)
  case 0
  show ?case by simp
next
  case (Suc c)
  have "concat (map (\<lambda>j. take b (drop (i + j * b) xs)) [0..<Suc c]) =
        take b (drop i xs) @ concat (map (\<lambda>j. take b (drop (i + b + j * b) xs)) [0..<c])"
    by (simp only: map_upt_Suc) (simp add: add.assoc)
  also have "\<dots> = take b (drop i xs) @ take (c * b) (drop b (drop i xs))"
    using Suc [of "i + b"] by (simp add: add.commute)
  also have "\<dots> = take (b + c * b) (drop i xs)"
    by (simp only: take_add)
  finally show ?case by simp
qed

lemma slices_cover:
  assumes "0 < b"
  shows "(n::nat) \<le> (n + b - 1) div b * b"
proof -
  have "(n + b - 1) div b * b + (n + b - 1) mod b = n + b - 1" by simp
  moreover have "(n + b - 1) mod b < b" using assms by simp
  ultimately show ?thesis by linarith
qed

lemma concat_slices: "0 < b \<Longrightarrow> concat (slices b xs) = xs"
  using concat_slices_upto [of b 0 xs "(length xs + b - 1) div b"] slices_cover [of b "length xs"]
  by (simp add: slices_def)

lemma length_slices: "length (slices b xs) = (length xs + b - 1) div b"
  by (simp add: slices_def)

lemma nth_slices:
  "j < length (slices b xs) \<Longrightarrow> slices b xs ! j = take b (drop (j * b) xs)"
  by (simp add: slices_def)

lemma slice_start_less:
  assumes "0 < b" "j < (n + b - 1) div b"
  shows "j * b < (n::nat)"
proof (rule ccontr)
  assume "\<not> j * b < n"
  then have "n + b - 1 < j * b + b" using assms by simp
  then have "n + b - 1 < Suc j * b" by simp
  then have "(n + b - 1) div b < Suc j"
    using assms(1) by (simp add: less_mult_imp_div_less)
  then show False using assms by simp
qed

lemma length_nth_slices:
  assumes "0 < b" "j < length (slices b xs)"
  shows "length (slices b xs ! j) = min b (length xs - j * b)"
  using assms by (simp add: nth_slices)

lemma slices_full:
  assumes "0 < b" "Suc j < length (slices b xs)"
  shows "length (slices b xs ! j) = b"
proof -
  have "Suc j * b < length xs"
    using slice_start_less [OF assms(1), of "Suc j" "length xs"] assms by (simp add: length_slices)
  then show ?thesis using assms by (simp add: nth_slices)
qed

lemma slices_nonempty:
  assumes "0 < b"
  shows "[] \<notin> set (slices b xs)"
proof
  assume "[] \<in> set (slices b xs)"
  then obtain j where j: "j < length (slices b xs)" "slices b xs ! j = []"
    by (metis in_set_conv_nth)
  then have "j * b < length xs"
    using slice_start_less [OF assms, of j "length xs"] by (simp add: length_slices)
  then show False using j assms by (simp add: nth_slices)
qed

lemma slices_le: "ys \<in> set (slices b xs) \<Longrightarrow> length ys \<le> b"
  by (auto simp: slices_def)

lemma generate_language_eq:
  assumes "1 \<le> bsize" "length prompts = length references"
  shows "generate_language gen prompts references bsize gb =
     (processed gb (slices (nat bsize) prompts),
      Inr (concat (map (records_of gen)
        (processed gb (zip (slices (nat bsize) prompts) (slices (nat bsize) references))))))"
proof -
  have len: "length (slices (nat bsize) prompts) = length (slices (nat bsize) references)"
    using assms by (simp add: length_slices)
  have opt: "map_option (\<lambda>k. k) gb = gb" by (cases gb) simp_all
  have "map fst (processed gb (zip (slices (nat bsize) prompts) (slices (nat bsize) references)))
      = processed gb (slices (nat bsize) prompts)"
    using len by (cases gb) (simp_all add: processed_def take_map [symmetric])
  then show ?thesis
    using assms run_batches_eq [of gen gb 0] 
    by (simp add: generate_language_def make_batches_slices opt)
qed

text \<open>
  C10: \<open>generate_language\<close> ends with \<open>AssertionError\<close> exactly when
  \<open>len(prompts) != len(references)\<close>; it has then called the inference interface for
  no batch and returns no record. When the two lengths are equal the assertion passes
  and the result is the one of the batching and of the loop over the batches.
\<close>

theorem generate_language_assertion:
  "(snd (generate_language gen prompts references bsize gb) = Inl AssertionError
      \<longleftrightarrow> length prompts \<noteq> length references)
   \<and> (length prompts \<noteq> length references \<longrightarrow>
        generate_language gen prompts references bsize gb = ([], Inl AssertionError))
   \<and> (length prompts = length references \<longrightarrow>
        generate_language gen prompts references bsize gb =
          (case make_batches prompts references bsize of
             Inl e \<Rightarrow> ([], Inl e)
           | Inr batches \<Rightarrow>
               (fst (run_batches gen gb 0 batches), Inr (snd (run_batches gen gb 0 batches)))))"
  by (simp add: generate_language_def make_batches_def case_prod_beta)

lemma concat_nth_uniform:
  assumes "0 < b"
    and "\<forall>j. Suc j < length xss \<longrightarrow> length (xss ! j) = b"
    and "\<forall>xs\<in>set xss. length xs \<le> b"
    and "i < length (concat xss)"
  shows "concat xss ! i = xss ! (i div b) ! (i mod b)"
  using assms(2-)
proof (induction xss arbitrary: i)
  case Nil
  then show ?case by simp
next
  case (Cons x rest)
  show ?case
  proof (cases "i < length x")
    case True
    moreover have "length x \<le> b" using Cons.prems(2) by simp
    ultimately show ?thesis by (simp add: nth_append)
  next
    case False
    then have rest: "rest \<noteq> []" using Cons.prems(3) by auto
    then have lx: "length x = b" using Cons.prems(1) [rule_format, of 0] by (cases rest) simp_all
    have h1: "\<forall>j. Suc j < length rest \<longrightarrow> length (rest ! j) = b"
    proof (intro allI impI)
      fix j assume "Suc j < length rest"
      then show "length (rest ! j) = b"
        using Cons.prems(1) [rule_format, of "Suc j"] by simp
    qed
    have h2: "\<forall>xs\<in>set rest. length xs \<le> b" using Cons.prems(2) by simp
    have h3: "i - b < length (concat rest)" using Cons.prems(3) False lx by simp
    have ib: "b \<le> i" using False lx by simp
    then have d: "i div b = Suc ((i - b) div b)" and m: "i mod b = (i - b) mod b"
      using assms(1) by (simp_all add: le_div_geq le_mod_geq)
    show ?thesis
      using Cons.IH [OF h1 h2 h3] False lx by (simp add: nth_append d m)
  qed
qed

lemma records_of_fields:
  assumes "length r = length p" "length (gen p) = length p"
  shows "map prompt (records_of gen (p, r)) = p"
    and "map reference (records_of gen (p, r)) = r"
    and "map generation (records_of gen (p, r)) = gen p"
proof -
  have z: "length (zip r (gen p)) = length p" using assms by simp
  have "map prompt (records_of gen (p, r)) = map fst (zip p (zip r (gen p)))"
    by (simp add: records_of_def case_prod_beta)
  then show "map prompt (records_of gen (p, r)) = p" using z by simp
  have "map reference (records_of gen (p, r)) = map fst (map snd (zip p (zip r (gen p))))"
    by (simp add: records_of_def case_prod_beta)
  then show "map reference (records_of gen (p, r)) = r" using z assms by simp
  have "map generation (records_of gen (p, r)) = map snd (map snd (zip p (zip r (gen p))))"
    by (simp add: records_of_def case_prod_beta)
  then show "map generation (records_of gen (p, r)) = gen p" using z assms by simp
qed

lemma records_fields_concat:
  assumes "length S = length R"
    and "\<forall>(p, r)\<in>set (zip S R). length r = length p \<and> length (gen p) = length p"
  shows "map prompt (concat (map (records_of gen) (zip S R))) = concat S
       \<and> map reference (concat (map (records_of gen) (zip S R))) = concat R
       \<and> map generation (concat (map (records_of gen) (zip S R))) = concat (map gen S)"
  using assms
proof (induction S R rule: list_induct2)
  case Nil
  show ?case by simp
next
  case (Cons p S r R)
  have "length r = length p" "length (gen p) = length p" using Cons.prems by simp_all
  then have "map prompt (records_of gen (p, r)) = p"
    "map reference (records_of gen (p, r)) = r"
    "map generation (records_of gen (p, r)) = gen p"
    by (rule records_of_fields)+
  then show ?case using Cons.IH Cons.prems by (simp add: map_concat)
qed

lemma slices_same_lengths:
  assumes "length ps = length rs" "(p, r) \<in> set (zip (slices b ps) (slices b rs))"
  shows "length r = length p"
proof -
  from assms(2) obtain j where j: "j < length (slices b ps)" "j < length (slices b rs)"
    "p = slices b ps ! j" "r = slices b rs ! j"
    by (auto simp: in_set_zip)
  then show ?thesis using assms(1) by (simp add: nth_slices)
qed

lemma div_shift:
  assumes "0 < b" "0 < (n::nat)"
  shows "(n + b - 1) div b = Suc ((n - 1) div b)"
proof -
  obtain x where x: "n = Suc x" using assms(2) by (cases n) simp_all
  have "(x + b) div b = Suc (x div b)" using assms(1) by simp
  then show ?thesis by (simp add: x)
qed

lemma div_full:
  assumes "0 < (b::nat)"
  shows "(k * b + b - 1) div b = k"
proof -
  obtain c where c: "b = Suc c" using assms by (cases b) simp_all
  have "k * b + b - 1 = k * b + c" by (simp add: c)
  moreover have "(k * b + c) div b = k + c div b" using assms by (rule div_mult_self3 [OF less_imp_neq [THEN not_sym]])
  moreover have "c div b = 0" by (simp add: c)
  ultimately show ?thesis by simp
qed

lemma index_in_slices:
  assumes "0 < b" "i < length xs"
  shows "i div b < length (slices b xs)"
proof -
  have "i div b \<le> (length xs - 1) div b" using assms by (simp add: div_le_mono)
  also have "\<dots> < Suc ((length xs - 1) div b)" by simp
  also have "\<dots> = (length xs + b - 1) div b"
  proof -
    have "0 < length xs" using assms by (cases xs) simp_all
    then show ?thesis using div_shift [of b "length xs"] assms by simp
  qed
  finally show ?thesis by (simp add: length_slices)
qed

lemma length_concat_le:
  "(\<forall>x\<in>set xs. length (f x) \<le> b) \<Longrightarrow> length (concat (map f xs)) \<le> length xs * b"
  by (induction xs) auto

lemma take_slices:
  assumes "0 < b"
  shows "take k (slices b xs) = slices b (take (k * b) xs)"
proof (rule nth_equalityI)
  have kk: "(k * b + b - 1) div b = k" using assms by (rule div_full)
  show len: "length (take k (slices b xs)) = length (slices b (take (k * b) xs))"
  proof (cases "k * b \<le> length xs")
    case True
    then have "(k * b + b - 1) div b \<le> (length xs + b - 1) div b"
      by (intro div_le_mono) simp
    then show ?thesis using True kk by (simp add: length_slices min_def)
  next
    case False
    then have "(length xs + b - 1) div b \<le> (k * b + b - 1) div b"
      by (intro div_le_mono) simp
    then show ?thesis using False kk by (simp add: length_slices min_def)
  qed
  fix j assume j: "j < length (take k (slices b xs))"
  then have jk: "j < k" and jl: "j < length (slices b xs)" by simp_all
  have "b \<le> k * b - j * b"
  proof -
    have "Suc j * b \<le> k * b" using jk by (intro mult_le_mono1) simp
    then show ?thesis by simp
  qed
  then have "take b (drop (j * b) (take (k * b) xs)) = take b (drop (j * b) xs)"
    by (simp add: drop_take min_def)
  then show "take k (slices b xs) ! j = slices b (take (k * b) xs) ! j"
    using j len jl by (simp add: nth_slices)
qed

text \<open>
  C4, as amended: for \<open>bsize \<ge> 1\<close> and \<open>len(prompts) == len(references)\<close>, the batches are
  the slices \<open>prompts[j*bsize : (j+1)*bsize]\<close> (paired with the same slices of the
  references), there are \<open>ceil(len(prompts) / bsize)\<close> of them, none is empty and all but
  the last have \<open>bsize\<close> prompts, their concatenation is the prompt list, and the calls
  of \<open>generate_from_str\<close> are, in order, one per processed batch with that batch's
  prompts: all batches when \<open>generation_batches\<close> is \<open>None\<close>, the first \<open>k\<close> when it
  is \<open>k\<close>. No exception is raised.
\<close>

theorem generate_language_batches:
  assumes "1 \<le> bsize" and "length prompts = length references"
  shows "make_batches prompts references bsize =
           Inr (zip (slices (nat bsize) prompts) (slices (nat bsize) references))
       \<and> concat (slices (nat bsize) prompts) = prompts
       \<and> (\<forall>j. Suc j < length (slices (nat bsize) prompts) \<longrightarrow>
             length (slices (nat bsize) prompts ! j) = nat bsize)
       \<and> [] \<notin> set (slices (nat bsize) prompts)
       \<and> fst (generate_language gen prompts references bsize gb) =
             processed gb (slices (nat bsize) prompts)
       \<and> (\<exists>recs. snd (generate_language gen prompts references bsize gb) = Inr recs)"
proof -
  have b: "0 < nat bsize" using assms(1) by simp
  show ?thesis
    using make_batches_slices [OF assms] concat_slices [OF b, of prompts]
      slices_full [OF b, of _ prompts] slices_nonempty [OF b, of prompts]
      generate_language_eq [OF assms, of gen gb]
    by simp
qed

theorem generate_language_batches_witness:
  "fst (generate_language (map (\<lambda>p. p @ str ''!'')) [str ''a'', str ''b'', str ''c''] [[str ''x''], [str ''y''], [str ''z'']] 2 None)
     = [[str ''a'', str ''b''], [str ''c'']]
   \<and> fst (generate_language (map (\<lambda>p. p @ str ''!'')) [str ''a'', str ''b'', str ''c''] [[str ''x''], [str ''y''], [str ''z'']] 2 (Some 1))
     = [[str ''a'', str ''b'']]"
proof -
  have s: "slices 2 [str ''a'', str ''b'', str ''c''] = [[str ''a'', str ''b''], [str ''c'']]"
    by code_simp
  have h1: "(1::int) \<le> 2" by simp
  have h2: "length [str ''a'', str ''b'', str ''c''] = length [[str ''x''], [str ''y''], [str ''z'']]" by simp
  show ?thesis
    using generate_language_batches [OF h1 h2, of "map (\<lambda>p. p @ str ''!'')" None]
      generate_language_batches [OF h1 h2, of "map (\<lambda>p. p @ str ''!'')" "Some 1"]
    by (simp add: s processed_def)
qed

text \<open>
  The claim C4 as stated fails for a batch size that is not positive: with
  \<open>bsize = -1\<close> there is no batch at all, so the concatenation of the batches is not the
  prompt list; and when the lengths differ the assertion fails before any batch is made.
\<close>

theorem generate_language_batches_counterexample:
  "\<not> (\<exists>batches. make_batches [str ''a''] [[str ''x'']] (- 1) = Inr batches
         \<and> concat (map fst batches) = [str ''a''])
   \<and> generate_language (map (\<lambda>p. p @ str ''!'')) [str ''a''] [[str ''x'']] (- 1) None = ([], Inr [])
   \<and> generate_language (map (\<lambda>p. p @ str ''!'')) [str ''a''] [] 1 None = ([], Inl AssertionError)"
  by (simp add: generate_language_def make_batches_def)

text \<open>
  C3, as amended: when \<open>bsize \<ge> 1\<close>, \<open>len(prompts) == len(references)\<close>,
  \<open>generation_batches\<close> is \<open>None\<close> and the inference interface returns one output string
  per prompt of each batch, \<open>generate_language\<close> returns one record per prompt, in input
  order: record \<open>i\<close> has the prompt \<open>prompts[i]\<close>, the reference \<open>references[i]\<close> and
  the output at position \<open>i mod bsize\<close> of the call on batch \<open>i div bsize\<close>.
\<close>

theorem generate_language_records:
  assumes "1 \<le> bsize" and "length prompts = length references"
    and "\<forall>ps\<in>set (slices (nat bsize) prompts). length (gen ps) = length ps"
  shows "\<exists>recs. snd (generate_language gen prompts references bsize None) = Inr recs
       \<and> length recs = length prompts
       \<and> (\<forall>i<length prompts.
             prompt (recs ! i) = prompts ! i
           \<and> reference (recs ! i) = references ! i
           \<and> generation (recs ! i) =
               gen (slices (nat bsize) prompts ! (i div nat bsize)) ! (i mod nat bsize))"
proof -
  let ?b = "nat bsize"
  let ?S = "slices ?b prompts" and ?R = "slices ?b references"
  let ?recs = "concat (map (records_of gen) (zip ?S ?R))"
  have b: "0 < ?b" using assms(1) by simp
  have res: "snd (generate_language gen prompts references bsize None) = Inr ?recs"
    using generate_language_eq [OF assms(1,2), of gen None] by (simp add: processed_def)
  have len: "length ?S = length ?R" using assms(2) by (simp add: length_slices)
  have ok: "\<forall>(p, r)\<in>set (zip ?S ?R). length r = length p \<and> length (gen p) = length p"
    using slices_same_lengths [OF assms(2)] assms(3) by (auto dest: set_zip_leftD)
  from records_fields_concat [OF len ok]
  have P: "map prompt ?recs = prompts" and R: "map reference ?recs = references"
    and G: "map generation ?recs = concat (map gen ?S)"
    using b assms(2) by (simp_all add: concat_slices)
  have lr: "length ?recs = length prompts" using P by (metis length_map)
  have "prompt (?recs ! i) = prompts ! i
       \<and> reference (?recs ! i) = references ! i
       \<and> generation (?recs ! i) = gen (?S ! (i div ?b)) ! (i mod ?b)"
    if i: "i < length prompts" for i
  proof -
    have i': "i < length ?recs" using i lr by simp
    have p: "prompt (?recs ! i) = prompts ! i"
      using nth_map [OF i', of prompt] P by simp
    have r: "reference (?recs ! i) = references ! i"
      using nth_map [OF i', of reference] R by simp
    have full: "\<forall>j. Suc j < length (map gen ?S) \<longrightarrow> length (map gen ?S ! j) = ?b"
    proof (intro allI impI)
      fix j assume j: "Suc j < length (map gen ?S)"
      then have "?S ! j \<in> set ?S" by simp
      then have "length (gen (?S ! j)) = length (?S ! j)" using assms(3) by blast
      then show "length (map gen ?S ! j) = ?b"
        using j slices_full [OF b, of j prompts] by simp
    qed
    have le: "\<forall>xs\<in>set (map gen ?S). length xs \<le> ?b"
      using slices_le assms(3) by fastforce
    have ig: "i < length (concat (map gen ?S))" using i' G by (metis length_map)
    have d: "i div ?b < length ?S" using index_in_slices [OF b i] .
    have "generation (?recs ! i) = concat (map gen ?S) ! i"
      using nth_map [OF i', of generation] G by simp
    also have "\<dots> = map gen ?S ! (i div ?b) ! (i mod ?b)"
      using concat_nth_uniform [OF b full le ig] .
    also have "\<dots> = gen (?S ! (i div ?b)) ! (i mod ?b)" using d by simp
    finally show ?thesis using p r by simp
  qed
  then show ?thesis using res lr by blast
qed

theorem generate_language_records_witness:
  "\<exists>recs. snd (generate_language (map (\<lambda>p. p @ str ''!'')) [str ''a'', str ''b'', str ''c'']
              [[str ''x''], [str ''y''], [str ''z'']] 2 None) = Inr recs
     \<and> length recs = 3
     \<and> prompt (recs ! 2) = str ''c'' \<and> reference (recs ! 2) = [str ''z'']
     \<and> generation (recs ! 2) = str ''c!''"
proof -
  have s: "slices 2 [str ''a'', str ''b'', str ''c''] = [[str ''a'', str ''b''], [str ''c'']]"
    by code_simp
  have h1: "(1::int) \<le> 2" by simp
  have h2: "length [str ''a'', str ''b'', str ''c''] = length [[str ''x''], [str ''y''], [str ''z'']]" by simp
  have h3: "\<forall>ps\<in>set (slices (nat 2) [str ''a'', str ''b'', str ''c'']).
              length (map (\<lambda>p. p @ str ''!'') ps) = length ps" by simp
  from generate_language_records [OF h1 h2 h3]
  obtain recs where r: "snd (generate_language (map (\<lambda>p. p @ str ''!'')) [str ''a'', str ''b'', str ''c'']
              [[str ''x''], [str ''y''], [str ''z'']] 2 None) = Inr recs"
    "length recs = length [str ''a'', str ''b'', str ''c'']"
    "\<forall>i<length [str ''a'', str ''b'', str ''c''].
             prompt (recs ! i) = [str ''a'', str ''b'', str ''c''] ! i
           \<and> reference (recs ! i) = [[str ''x''], [str ''y''], [str ''z'']] ! i
           \<and> generation (recs ! i) =
               map (\<lambda>p. p @ str ''!'') (slices (nat 2) [str ''a'', str ''b'', str ''c''] ! (i div nat 2)) ! (i mod nat 2)"
    by blast
  from r(3) [rule_format, of 2] have
    "prompt (recs ! 2) = str ''c'' \<and> reference (recs ! 2) = [str ''z''] \<and> generation (recs ! 2) = str ''c!''"
    by (simp add: s) (simp add: str_def)
  then show ?thesis using r(1,2) by auto
qed

text \<open>
  The claim C3 as stated fails for a batch size that is not positive: with one prompt,
  one reference and \<open>bsize = -1\<close> no record is returned, and with \<open>bsize = 0\<close> the
  \<open>range\<close> raises \<open>ValueError\<close>.
\<close>

theorem generate_language_records_counterexample:
  "length [str ''a''] = length [[str ''x'']]
   \<and> snd (generate_language (map (\<lambda>p. p @ str ''!'')) [str ''a''] [[str ''x'']] (- 1) None) = Inr []
   \<and> snd (generate_language (map (\<lambda>p. p @ str ''!'')) [str ''a''] [[str ''x'']] 0 None) = Inl ValueError"
  by (simp add: generate_language_def make_batches_def)

text \<open>
  C8, as amended: when \<open>generation_batches\<close> is \<open>k \<ge> 0\<close>, \<open>bsize \<ge> 1\<close> and
  \<open>len(prompts) == len(references)\<close>, the inference interface is called on the first
  \<open>k\<close> batches only, the call returns (no exception) at most \<open>k * bsize\<close> records, and
  the result is the one of the same call on the first \<open>k * bsize\<close> prompts and references:
  the prompts from index \<open>k * bsize\<close> on have no part in it.
\<close>

theorem generate_language_truncates:
  assumes "1 \<le> bsize" and "0 \<le> k" and "length prompts = length references"
  shows "fst (generate_language gen prompts references bsize (Some k)) =
           take (nat k) (slices (nat bsize) prompts)
       \<and> (\<exists>recs. snd (generate_language gen prompts references bsize (Some k)) = Inr recs
             \<and> int (length recs) \<le> k * bsize)
       \<and> generate_language gen prompts references bsize (Some k) =
           generate_language gen (take (nat (k * bsize)) prompts)
             (take (nat (k * bsize)) references) bsize (Some k)"
proof -
  let ?b = "nat bsize" and ?k = "nat k"
  let ?S = "slices ?b prompts" and ?R = "slices ?b references"
  let ?recs = "concat (map (records_of gen) (take ?k (zip ?S ?R)))"
  have b: "0 < ?b" using assms(1) by simp
  have kb: "nat (k * bsize) = ?k * ?b" using assms(2) by (simp add: nat_mult_distrib)
  have full: "generate_language gen prompts references bsize (Some k) = (take ?k ?S, Inr ?recs)"
    using generate_language_eq [OF assms(1,3), of gen "Some k"] by (simp add: processed_def)
  have "length (records_of gen x) \<le> ?b" if "x \<in> set (take ?k (zip ?S ?R))" for x
  proof -
    obtain p r where x: "x = (p, r)" by (cases x)
    have "(p, r) \<in> set (zip ?S ?R)" using that x by (auto dest: in_set_takeD)
    then have "fst x \<in> set ?S" using x by (auto dest: set_zip_leftD)
    then have "length (fst x) \<le> ?b" by (rule slices_le)
    then show ?thesis by (simp add: records_of_def)
  qed
  then have "length ?recs \<le> length (take ?k (zip ?S ?R)) * ?b"
    by (intro length_concat_le) blast
  also have "\<dots> \<le> ?k * ?b" by (intro mult_le_mono1) simp
  finally have "int (length ?recs) \<le> int (?k * ?b)" by (simp only: of_nat_le_iff)
  moreover have "int (?k * ?b) = k * bsize" using assms(1,2) by simp
  ultimately have bound: "int (length ?recs) \<le> k * bsize" by (simp only:)
  have l': "length (take (?k * ?b) prompts) = length (take (?k * ?b) references)"
    using assms(3) by simp
  have "generate_language gen (take (?k * ?b) prompts) (take (?k * ?b) references) bsize (Some k)
      = (take ?k (take ?k ?S), Inr (concat (map (records_of gen) (take ?k (zip (take ?k ?S) (take ?k ?R))))))"
    using generate_language_eq [OF assms(1) l', of gen "Some k"]
    by (simp add: processed_def take_slices [OF b, symmetric])
  also have "\<dots> = (take ?k ?S, Inr ?recs)" by (simp add: take_zip [symmetric])
  finally show ?thesis using full bound by (simp add: kb)
qed

theorem generate_language_truncates_witness:
  "fst (generate_language (map (\<lambda>p. p @ str ''!'')) [str ''a'', str ''b'', str ''c''] [[str ''x''], [str ''y''], [str ''z'']] 2 (Some 1))
     = [[str ''a'', str ''b'']]
   \<and> generate_language (map (\<lambda>p. p @ str ''!'')) [str ''a'', str ''b'', str ''c''] [[str ''x''], [str ''y''], [str ''z'']] 2 (Some 1)
     = generate_language (map (\<lambda>p. p @ str ''!'')) [str ''a'', str ''b''] [[str ''x''], [str ''y'']] 2 (Some 1)"
proof -
  have s: "slices 2 [str ''a'', str ''b'', str ''c''] = [[str ''a'', str ''b''], [str ''c'']]"
    by code_simp
  have h1: "(1::int) \<le> 2" and h2: "(0::int) \<le> 1" by simp_all
  have h3: "length [str ''a'', str ''b'', str ''c''] = length [[str ''x''], [str ''y''], [str ''z'']]" by simp
  note t = generate_language_truncates [OF h1 h2 h3, of "map (\<lambda>p. p @ str ''!'')"]
  have A: "fst (generate_language (map (\<lambda>p. p @ str ''!'')) [str ''a'', str ''b'', str ''c'']
             [[str ''x''], [str ''y''], [str ''z'']] 2 (Some 1)) = [[str ''a'', str ''b'']]"
    using t [THEN conjunct1] by (simp add: s)
  have B: "generate_language (map (\<lambda>p. p @ str ''!'')) [str ''a'', str ''b'', str ''c'']
             [[str ''x''], [str ''y''], [str ''z'']] 2 (Some 1)
     = generate_language (map (\<lambda>p. p @ str ''!'')) [str ''a'', str ''b''] [[str ''x''], [str ''y'']] 2 (Some 1)"
    using t [THEN conjunct2, THEN conjunct2] by simp
  show ?thesis using A B by (rule conjI)
qed

text \<open>
  The claim C8 as stated fails outside these bounds: \<open>bsize = 0\<close> raises
  \<open>ValueError\<close>, lists of different lengths raise \<open>AssertionError\<close>, and for
  \<open>k = -1\<close> and \<open>bsize = 1\<close> the empty list returned has more than \<open>k * bsize = -1\<close>
  records.
\<close>

theorem generate_language_truncates_counterexample:
  "snd (generate_language (map (\<lambda>p. p @ str ''!'')) [str ''a''] [[str ''x'']] 0 (Some 1)) = Inl ValueError
   \<and> snd (generate_language (map (\<lambda>p. p @ str ''!'')) [str ''a''] [] 1 (Some 1)) = Inl AssertionError
   \<and> snd (generate_language (map (\<lambda>p. p @ str ''!'')) [str ''a''] [[str ''x'']] 1 (Some (- 1))) = Inr []
   \<and> \<not> int (length ([] :: gen_record list)) \<le> (- 1) * 1"
  by (simp add: generate_language_def make_batches_def batches_from.simps)

theorem generate_language_assertion_witness:
  "generate_language (map (\<lambda>p. p @ str ''!'')) [str ''a'', str ''b''] [[str ''x'']] 2 None = ([], Inl AssertionError)
   \<and> snd (generate_language (map (\<lambda>p. p @ str ''!'')) [str ''a''] [[str ''x'']] 2 None) \<noteq> Inl AssertionError"
  using generate_language_assertion [of "map (\<lambda>p. p @ str ''!'')" "[str ''a'', str ''b'']" "[[str ''x'']]" 2 None]
    generate_language_assertion [of "map (\<lambda>p. p @ str ''!'')" "[str ''a'']" "[[str ''x'']]" 2 None, THEN conjunct1]
  by simp

section \<open>Properties of the diversity score\<close>

lemma extend_n_grams_concat:
  "extend_n_grams U n acc ps = acc @ concat (map (n_grams_of U n) ps)"
  by (induction ps arbitrary: acc) simp_all

lemma take_as_map_nth: "n \<le> length ts \<Longrightarrow> map (\<lambda>i. hd (drop i ts)) [0..<n] = take n ts"
  by (rule nth_equalityI) (simp_all add: hd_drop_conv_nth)

lemma empty_suffix_iff:
  assumes "0 < n"
  shows "[] \<in> set (map (\<lambda>i. drop i ts) [0..<n]) \<longleftrightarrow> length ts < n"
proof
  assume "[] \<in> set (map (\<lambda>i. drop i ts) [0..<n])"
  then obtain i where "i < n" "drop i ts = []" by auto
  then show "length ts < n" by simp
next
  assume "length ts < n"
  then have "length ts \<in> set [0..<n]" "drop (length ts) ts = []" by simp_all
  then show "[] \<in> set (map (\<lambda>i. drop i ts) [0..<n])" by (metis (mono_tags, lifting) image_eqI set_map)
qed

lemma zip_star_windows:
  assumes "0 < n"
  shows "zip_star (map (\<lambda>i. drop i ts) [0..<n]) = word_n_grams n ts"
proof (induction ts)
  case Nil
  have "[] \<in> set (map (\<lambda>i. drop i ([]::'a list)) [0..<n])"
    using empty_suffix_iff [OF assms, of "[]"] assms by simp
  then show ?case using assms
    by (subst zip_star.simps) (simp add: word_n_grams_def)
next
  case (Cons t ts)
  let ?xss = "map (\<lambda>i. drop i (t # ts)) [0..<n]"
  show ?case
  proof (cases "length (t # ts) < n")
    case True
    then have "[] \<in> set ?xss" using empty_suffix_iff [OF assms, of "t # ts"] by simp
    then show ?thesis using True
      by (subst zip_star.simps) (simp add: word_n_grams_def)
  next
    case False
    then have ne: "[] \<notin> set ?xss" using empty_suffix_iff [OF assms, of "t # ts"] by simp
    have nonempty: "?xss \<noteq> []" using assms by simp
    have hd: "map hd ?xss = take n (t # ts)"
      using take_as_map_nth [of n "t # ts"] False by (simp add: o_def)
    have tl: "map tl ?xss = map (\<lambda>i. drop i ts) [0..<n]"
      by (simp add: o_def tl_drop)
    have "zip_star ?xss = map hd ?xss # zip_star (map tl ?xss)"
      using ne nonempty by (subst zip_star.simps) simp
    also have "\<dots> = take n (t # ts) # word_n_grams n ts"
      by (simp only: hd tl Cons.IH)
    also have "\<dots> = word_n_grams n (t # ts)"
    proof -
      have "length (t # ts) + 1 - n = Suc (length ts + 1 - n)" using False by simp
      then show ?thesis
        unfolding word_n_grams_def by (simp only: map_upt_Suc) simp
    qed
    finally show ?thesis .
  qed
qed

lemma n_grams_of_windows:
  "1 \<le> n \<Longrightarrow> n_grams_of U n p = word_n_grams (nat n) (split (lower U p))"
  by (simp add: n_grams_of_def py_range_def split_strip zip_star_windows)

lemma all_n_grams_windows:
  "1 \<le> n \<Longrightarrow> extend_n_grams U n [] ps =
     concat (map (\<lambda>p. word_n_grams (nat n) (split (lower U p))) ps)"
proof -
  assume "1 \<le> n"
  then have "n_grams_of U n = (\<lambda>p. word_n_grams (nat n) (split (lower U p)))"
    by (intro ext) (rule n_grams_of_windows)
  then show ?thesis by (simp add: extend_n_grams_concat)
qed

lemma ratio_bounds:
  assumes "xs \<noteq> []"
  shows "0 < real (card (set xs)) / real (length xs)"
    and "real (card (set xs)) / real (length xs) \<le> 1"
proof -
  have "0 < card (set xs)" using assms by (simp add: card_gt_0_iff)
  then show "0 < real (card (set xs)) / real (length xs)" using assms by simp
  have "card (set xs) \<le> length xs" by (rule card_length)
  then show "real (card (set xs)) / real (length xs) \<le> 1" using assms by simp
qed

lemma diversity_bounds: "0 < diversity U ps n \<and> diversity U ps n \<le> 1"
  using ratio_bounds [of "extend_n_grams U n [] ps"]
  by (simp add: diversity_def Let_def)

lemma word_n_grams_short: "length ts < n \<Longrightarrow> word_n_grams n ts = []"
  by (simp add: word_n_grams_def)

lemma diversity_windows:
  "1 \<le> n \<Longrightarrow> diversity U predictions n =
     (let grams = concat (map (\<lambda>p. word_n_grams (nat n) (split (lower U p))) predictions)
      in if grams = [] then 1 else real (card (set grams)) / real (length grams))"
  by (simp add: diversity_def all_n_grams_windows Let_def)

text \<open>
  C6: \<open>diversity\<close> lies in the interval (0, 1] for every input. For \<open>n \<ge> 1\<close> it is the
  number of distinct n-grams divided by the number of n-grams, where the n-grams are
  the windows of \<open>n\<close> consecutive whitespace-separated tokens of the lowercased
  predictions, collected over all predictions; it is 1.0 when there is no n-gram, as
  with an empty list of predictions or when every prediction has fewer than \<open>n\<close> tokens,
  counted after lowercasing or, with Unicode tables that give whitespace no case,
  before it.
\<close>

theorem diversity_ratio:
  "0 < diversity U predictions n \<and> diversity U predictions n \<le> 1
   \<and> (1 \<le> n \<longrightarrow>
        diversity U predictions n =
          (let grams = concat (map (\<lambda>p. word_n_grams (nat n) (split (lower U p))) predictions)
           in if grams = [] then 1 else real (card (set grams)) / real (length grams)))
   \<and> (1 \<le> n \<longrightarrow> (\<forall>p\<in>set predictions. length (split (lower U p)) < nat n) \<longrightarrow>
        diversity U predictions n = 1)
   \<and> (1 \<le> n \<longrightarrow> whitespace_uncased U \<longrightarrow>
        (\<forall>p\<in>set predictions. length (split p) < nat n) \<longrightarrow>
        diversity U predictions n = 1)
   \<and> diversity U [] n = 1"
proof -
  have short: "diversity U predictions n = 1"
    if n: "1 \<le> n" and s: "\<forall>p\<in>set predictions. length (split (lower U p)) < nat n"
  proof -
    have "word_n_grams (nat n) (split (lower U p)) = []" if "p \<in> set predictions" for p
      using that s by (simp add: word_n_grams_short)
    then have "concat (map (\<lambda>p. word_n_grams (nat n) (split (lower U p))) predictions) = []"
      by simp
    then show ?thesis using diversity_windows [OF n, of U predictions]
      by (simp only: Let_def) simp
  qed
  have short': "diversity U predictions n = 1"
    if n: "1 \<le> n" and w: "whitespace_uncased U"
      and s: "\<forall>p\<in>set predictions. length (split p) < nat n"
  proof -
    have "length (split (lower U p)) < nat n" if "p \<in> set predictions" for p
      using that s length_split_lower [OF w, of p] by fastforce
    then show ?thesis using short [OF n] by blast
  qed
  have "diversity U [] n = 1" by (simp add: diversity_def)
  then show ?thesis
    using diversity_bounds [of U predictions n] diversity_windows [of n U predictions]
      short short' by blast
qed

theorem diversity_ratio_witness:
  "diversity ascii_greek_tables [str ''The cat  the CAT sat'', str ''the cat''] 2 = 3 / 5
   \<and> diversity ascii_greek_tables [str ''one'', str ''TWO''] 2 = 1
   \<and> 0 < diversity ascii_greek_tables [str ''The cat  the CAT sat'', str ''the cat''] 2"
proof -
  let ?U = ascii_greek_tables
  have g: "concat (map (\<lambda>p. word_n_grams (nat 2) (split (lower ?U p)))
             [str ''The cat  the CAT sat'', str ''the cat''])
        = [[str ''the'', str ''cat''], [str ''cat'', str ''the''], [str ''the'', str ''cat''],
           [str ''cat'', str ''sat''], [str ''the'', str ''cat'']]"
    by (simp add: string_eval word_n_grams_def)
  have c: "card (set [[str ''the'', str ''cat''], [str ''cat'', str ''the''],
           [str ''the'', str ''cat''], [str ''cat'', str ''sat''], [str ''the'', str ''cat'']]) = 3"
    by (simp only: List.card_set) (simp add: str_def)
  have h: "\<forall>p\<in>set [str ''one'', str ''TWO'']. length (split p) < nat 2"
    by (simp add: string_eval)
  have h1: "(1::int) \<le> 2" by simp
  note t = diversity_ratio [of ?U "[str ''The cat  the CAT sat'', str ''the cat'']" 2]
  note u = diversity_ratio [of ?U "[str ''one'', str ''TWO'']" 2]
  have A: "diversity ?U [str ''The cat  the CAT sat'', str ''the cat''] 2 = 3 / 5"
    using t [THEN conjunct2, THEN conjunct2, THEN conjunct1, rule_format, OF h1]
    by (simp only: g Let_def c) simp
  have B: "diversity ?U [str ''one'', str ''TWO''] 2 = 1"
    using u [THEN conjunct2, THEN conjunct2, THEN conjunct2, THEN conjunct2, THEN conjunct1]
      h1 h ascii_greek_whitespace by blast
  have C: "0 < diversity ?U [str ''The cat  the CAT sat'', str ''the cat''] 2"
    using t [THEN conjunct1] .
  show ?thesis using A B C by (intro conjI)
qed
section \<open>Properties of the metrics\<close>

lemma foldl_max: "foldl (\<lambda>m y. if y > m then y else m) (x::real) xs = Max (set (x # xs))"
proof (induction xs arbitrary: x)
  case Nil
  show ?case by simp
next
  case (Cons a xs)
  have "Max (insert (if a > x then a else x) (set xs)) = Max (insert x (insert a (set xs)))"
  proof (cases "set xs = {}")
    case True
    then show ?thesis by (simp add: max_def)
  next
    case False
    then show ?thesis by (simp add: max_def)
  qed
  then show ?case using Cons [of "if a > x then a else x"] by simp
qed

lemma py_max_Max: "xs \<noteq> [] \<Longrightarrow> py_max xs = Inr (Max (set xs))"
  by (cases xs) (simp_all add: foldl_max del: set_simps)

lemma metric_max_nonempty:
  "refs \<noteq> [] \<Longrightarrow>
   metric_max_over_references f p refs = Inr (Max (f p ` set refs))"
  by (simp add: metric_max_over_references_def py_max_Max)

lemma metric_max_empty: "metric_max_over_references f p [] = Inl ValueError"
  by (simp add: metric_max_over_references_def)

lemma comprehension_ok:
  "(\<forall>x\<in>set xs. f x = Inr (g x)) \<Longrightarrow> comprehension f xs = Inr (map g xs)"
  by (induction xs) simp_all

lemma comprehension_fails:
  "(\<exists>x\<in>set xs. f x = Inl e) \<Longrightarrow> (\<forall>x\<in>set xs. \<forall>e'. f x = Inl e' \<longrightarrow> e' = e) \<Longrightarrow>
   comprehension f xs = Inl e"
proof (induction xs)
  case Nil
  then show ?case by simp
next
  case (Cons x xs)
  show ?case
  proof (cases "f x")
    case (Inl e')
    then show ?thesis using Cons.prems(2) by simp
  next
    case (Inr y)
    then have "\<exists>x\<in>set xs. f x = Inl e" using Cons.prems(1) by auto
    then have "comprehension f xs = Inl e" using Cons.IH Cons.prems(2) by simp
    then show ?thesis using Inr by simp
  qed
qed

lemma zip_fields: "zip (map generation data) (map reference data) = map (\<lambda>r. (generation r, reference r)) data"
  by (induction data) simp_all

lemma scores_ok:
  assumes "\<forall>r\<in>set data. reference r \<noteq> []"
  shows "comprehension (\<lambda>(pred, ref). metric_max_over_references f pred ref)
           (zip (map generation data) (map reference data)) = Inr (map (best f) data)"
proof -
  have "comprehension (\<lambda>(pred, ref). metric_max_over_references f pred ref)
           (map (\<lambda>r. (generation r, reference r)) data)
        = Inr (map (\<lambda>x. Max (f (fst x) ` set (snd x))) (map (\<lambda>r. (generation r, reference r)) data))"
    using assms by (intro comprehension_ok) (auto simp: metric_max_nonempty)
  then show ?thesis by (simp add: zip_fields best_def o_def)
qed

lemma scores_fail:
  assumes "\<exists>r\<in>set data. reference r = []"
  shows "comprehension (\<lambda>(pred, ref). metric_max_over_references f pred ref)
           (zip (map generation data) (map reference data)) = Inl ValueError"
proof (rule comprehension_fails)
  from assms obtain r where r: "r \<in> set data" "reference r = []" by blast
  then have "(generation r, reference r) \<in> set (zip (map generation data) (map reference data))"
    by (auto simp: zip_fields)
  then show "\<exists>x\<in>set (zip (map generation data) (map reference data)).
      (case x of (pred, ref) \<Rightarrow> metric_max_over_references f pred ref) = Inl ValueError"
    using r(2) by (force simp: metric_max_empty)
  show "\<forall>x\<in>set (zip (map generation data) (map reference data)).
      \<forall>e'. (case x of (pred, ref) \<Rightarrow> metric_max_over_references f pred ref) = Inl e' \<longrightarrow> e' = ValueError"
  proof (intro ballI allI impI)
    fix x e' assume "(case x of (pred, ref) \<Rightarrow> metric_max_over_references f pred ref) = Inl e'"
    then show "e' = ValueError"
      by (cases x; cases "snd x = []") (auto simp: metric_max_empty metric_max_nonempty)
  qed
qed

lemma compute_metrics_eq:
  assumes "data \<noteq> []" "\<forall>r\<in>set data. reference r \<noteq> []"
  shows "compute_metrics U lib data = Inr
              [(''rouge1'', np_mean (map (best (rouge1_score lib)) data)),
               (''rouge1_err'', std_err (map (best (rouge1_score lib)) data)),
               (''rougeL'', np_mean (map (best (rougeL_score lib)) data)),
               (''rougeL_err'', std_err (map (best (rougeL_score lib)) data)),
               (''exact_match'', np_mean (map (best (exact_match U)) data)),
               (''exact_match_err'', std_err (map (best (exact_match U)) data)),
               (''diversity2'', diversity U (map generation data) 2),
               (''diversity3'', diversity U (map generation data) 3),
               (''avg_length'', np_mean (map gram_length (map generation data))),
               (''avg_length_err'', std_err (map gram_length (map generation data)))]"
  using assms(1) by (simp add: compute_metrics_def Let_def scores_ok [OF assms(2)])

lemma compute_metrics_fail:
  assumes "\<exists>r\<in>set data. reference r = []"
  shows "compute_metrics U lib data = Inl ValueError"
proof -
  have "data \<noteq> []" using assms by auto
  then show ?thesis by (simp add: compute_metrics_def Let_def scores_fail [OF assms])
qed

lemma np_mean_arithmetic: "np_mean xs = arithmetic_mean xs"
  by (simp add: np_mean_def arithmetic_mean_def sum_list_sum_nth atLeast0LessThan)

lemma np_std_population: "np_std xs = population_std xs"
proof -
  have "sum_list (map (\<lambda>x. \<bar>x - arithmetic_mean xs\<bar> ^ 2) xs)
      = (\<Sum>i<length xs. (xs ! i - arithmetic_mean xs) ^ 2)"
    by (simp add: sum_list_sum_nth atLeast0LessThan)
  then have "np_mean (map (\<lambda>x. \<bar>x - arithmetic_mean xs\<bar> ^ 2) xs)
      = (\<Sum>i<length xs. (xs ! i - arithmetic_mean xs) ^ 2) / real (length xs)"
    by (simp add: np_mean_def)
  then show ?thesis
    by (simp only: np_std_def population_std_def np_mean_arithmetic [of xs])
qed

lemma std_err_population: "std_err xs = population_std xs / sqrt (real (length xs))"
  by (simp add: std_err_def np_std_population)

lemma gram_length_tokens: "gram_length p = real (length (split p))"
  by (simp add: gram_length_def split_strip)

lemma rouge_eta: "rouge1_score lib = rouge1_fmeasure lib" "rougeL_score lib = rougeL_fmeasure lib"
  by (intro ext, simp add: rouge1_score_def rougeL_score_def)+

lemma arithmetic_mean_pair: "arithmetic_mean [a, b] = (a + b) / 2"
  by (simp add: np_mean_arithmetic [symmetric] np_mean_def)

lemma population_std_pair: "population_std [a, b] = \<bar>a - b\<bar> / 2"
proof -
  have "np_std [a, b] = sqrt (((a - b) / 2) ^ 2)"
    by (simp add: np_std_def np_mean_def power2_eq_square field_simps)
  then show ?thesis by (simp add: np_std_population [symmetric])
qed

lemma example_em:
  "map (best (exact_match ascii_greek_tables)) example_records = [1, 0]"
  by (simp add: example_records_def best_def string_eval)

lemma example_rouge1: "map (best (rouge1_fmeasure example_scorers)) example_records = [21 / 10, 7 / 10]"
  by (simp add: example_records_def example_scorers_def best_def str_def)

lemma example_rougeL: "map (best (rougeL_fmeasure example_scorers)) example_records = [0, 1]"
  by (simp add: example_records_def example_scorers_def best_def str_def)

lemma example_lengths:
  "map (\<lambda>r. real (length (split (generation r)))) example_records = [5, 2]"
  by (simp add: example_records_def string_eval)

lemma example_tokens:
  "map (\<lambda>p. split (lower ascii_greek_tables p)) (map generation example_records) =
     [[str ''the'', str ''cat'', str ''the'', str ''cat'', str ''sat''], [str ''the'', str ''cat'']]"
  by (simp add: example_records_def string_eval)

lemma example_diversity2:
  "diversity ascii_greek_tables (map generation example_records) 2 = 3 / 5"
proof -
  have g: "concat (map (\<lambda>p. word_n_grams (nat 2) (split (lower ascii_greek_tables p)))
             (map generation example_records))
        = [[str ''the'', str ''cat''], [str ''cat'', str ''the''], [str ''the'', str ''cat''],
           [str ''cat'', str ''sat''], [str ''the'', str ''cat'']]"
    by (simp add: example_records_def string_eval word_n_grams_def)
  have c: "card (set [[str ''the'', str ''cat''], [str ''cat'', str ''the''],
           [str ''the'', str ''cat''], [str ''cat'', str ''sat''], [str ''the'', str ''cat'']]) = 3"
    by (simp only: List.card_set) (simp add: str_def)
  have "(1::int) \<le> 2" by simp
  from diversity_windows [OF this, of ascii_greek_tables "map generation example_records"]
  show ?thesis by (simp only: g Let_def c) simp
qed

lemma example_diversity3:
  "diversity ascii_greek_tables (map generation example_records) 3 = 1"
proof -
  have g: "concat (map (\<lambda>p. word_n_grams (nat 3) (split (lower ascii_greek_tables p)))
             (map generation example_records))
        = [[str ''the'', str ''cat'', str ''the''], [str ''cat'', str ''the'', str ''cat''],
           [str ''the'', str ''cat'', str ''sat'']]"
    by (simp add: example_records_def string_eval word_n_grams_def)
  have c: "card (set [[str ''the'', str ''cat'', str ''the''], [str ''cat'', str ''the'', str ''cat''],
           [str ''the'', str ''cat'', str ''sat'']]) = 3"
    by (simp only: List.card_set) (simp add: str_def)
  have "(1::int) \<le> 3" by simp
  from diversity_windows [OF this, of ascii_greek_tables "map generation example_records"]
  show ?thesis by (simp only: g Let_def c) simp
qed

lemma example_hyps:
  "example_records \<noteq> []" "\<forall>r\<in>set example_records. reference r \<noteq> []"
  "length example_records = 2"
  by (simp_all add: example_records_def)

text \<open>
  C7: for a non-empty list of records whose reference lists are all non-empty,
  \<open>compute_metrics\<close> reports \<open>rouge1\<close>, \<open>rougeL\<close> and \<open>exact_match\<close> as the
  arithmetic mean over the records of the record's greatest metric value over its
  references, \<open>avg_length\<close> as the mean number of whitespace-separated tokens of the
  generations, and each \<open>_err\<close> value as the population standard deviation of the same
  per-record scores divided by the square root of the number of records.
\<close>

theorem compute_metrics_aggregates:
  assumes "data \<noteq> []" and "\<forall>r\<in>set data. reference r \<noteq> []"
  shows "\<exists>d. compute_metrics U lib data = Inr d
     \<and> map_of d ''rouge1'' = Some (arithmetic_mean (map (best (rouge1_fmeasure lib)) data))
     \<and> map_of d ''rouge1_err'' =
         Some (population_std (map (best (rouge1_fmeasure lib)) data) / sqrt (real (length data)))
     \<and> map_of d ''rougeL'' = Some (arithmetic_mean (map (best (rougeL_fmeasure lib)) data))
     \<and> map_of d ''rougeL_err'' =
         Some (population_std (map (best (rougeL_fmeasure lib)) data) / sqrt (real (length data)))
     \<and> map_of d ''exact_match'' = Some (arithmetic_mean (map (best (exact_match U)) data))
     \<and> map_of d ''exact_match_err'' =
         Some (population_std (map (best (exact_match U)) data) / sqrt (real (length data)))
     \<and> map_of d ''avg_length'' =
         Some (arithmetic_mean (map (\<lambda>r. real (length (split (generation r)))) data))
     \<and> map_of d ''avg_length_err'' =
         Some (population_std (map (\<lambda>r. real (length (split (generation r)))) data)
                 / sqrt (real (length data)))"
proof -
  have g: "map gram_length (map generation data) =
           map (\<lambda>r. real (length (split (generation r)))) data"
    by (simp add: gram_length_tokens)
  show ?thesis
    unfolding compute_metrics_eq [OF assms] g rouge_eta
    by (simp add: np_mean_arithmetic std_err_population)
qed

theorem compute_metrics_aggregates_witness:
  "\<exists>d. compute_metrics ascii_greek_tables example_scorers example_records = Inr d
     \<and> map_of d ''rouge1'' = Some (7 / 5)
     \<and> map_of d ''rouge1_err'' = Some (7 / 10 / sqrt 2)
     \<and> map_of d ''rougeL'' = Some (1 / 2)
     \<and> map_of d ''rougeL_err'' = Some (1 / 2 / sqrt 2)
     \<and> map_of d ''exact_match'' = Some (1 / 2)
     \<and> map_of d ''exact_match_err'' = Some (1 / 2 / sqrt 2)
     \<and> map_of d ''avg_length'' = Some (7 / 2)
     \<and> map_of d ''avg_length_err'' = Some (3 / 2 / sqrt 2)"
  using compute_metrics_aggregates [OF example_hyps(1,2), of ascii_greek_tables example_scorers]
  unfolding example_em example_rouge1 example_rougeL example_lengths example_hyps(3)
    arithmetic_mean_pair population_std_pair
  by simp

text \<open>
  C1, as amended: for a non-empty list of records whose reference lists are all
  non-empty, \<open>compute_metrics\<close> returns the dictionary below, of ten items: the mean and
  the error of ROUGE-1, ROUGE-L and exact match (each record scored by its best
  reference), the 2-gram and 3-gram diversity of the generations, and the mean and the
  error of their length in tokens. None is a BLEU score: \<open>bleu_score\<close> is never called,
  and the dictionary is the same whatever \<open>sentence_bleu\<close> computes.
\<close>

theorem compute_metrics_dictionary:
  assumes "data \<noteq> []" and "\<forall>r\<in>set data. reference r \<noteq> []"
  shows "compute_metrics U lib data = Inr
     [(''rouge1'', arithmetic_mean (map (best (rouge1_fmeasure lib)) data)),
      (''rouge1_err'',
         population_std (map (best (rouge1_fmeasure lib)) data) / sqrt (real (length data))),
      (''rougeL'', arithmetic_mean (map (best (rougeL_fmeasure lib)) data)),
      (''rougeL_err'',
         population_std (map (best (rougeL_fmeasure lib)) data) / sqrt (real (length data))),
      (''exact_match'', arithmetic_mean (map (best (exact_match U)) data)),
      (''exact_match_err'',
         population_std (map (best (exact_match U)) data) / sqrt (real (length data))),
      (''diversity2'', diversity U (map generation data) 2),
      (''diversity3'', diversity U (map generation data) 3),
      (''avg_length'', arithmetic_mean (map (\<lambda>r. real (length (split (generation r)))) data)),
      (''avg_length_err'',
         population_std (map (\<lambda>r. real (length (split (generation r)))) data)
           / sqrt (real (length data)))]
   \<and> compute_metrics U (lib\<lparr>sentence_bleu := bleu\<rparr>) data = compute_metrics U lib data"
proof -
  have g: "map gram_length (map generation data) =
           map (\<lambda>r. real (length (split (generation r)))) data"
    by (simp add: gram_length_tokens)
  have "rouge1_score (lib\<lparr>sentence_bleu := bleu\<rparr>) = rouge1_score lib"
    "rougeL_score (lib\<lparr>sentence_bleu := bleu\<rparr>) = rougeL_score lib"
    by (simp_all add: rouge_eta)
  then have "compute_metrics U (lib\<lparr>sentence_bleu := bleu\<rparr>) data = compute_metrics U lib data"
    by (simp add: compute_metrics_eq [OF assms])
  then show ?thesis
    unfolding compute_metrics_eq [OF assms] g rouge_eta
    by (simp add: np_mean_arithmetic std_err_population)
qed

theorem compute_metrics_dictionary_witness:
  "compute_metrics ascii_greek_tables example_scorers example_records = Inr
     [(''rouge1'', 7 / 5), (''rouge1_err'', 7 / 10 / sqrt 2),
      (''rougeL'', 1 / 2), (''rougeL_err'', 1 / 2 / sqrt 2),
      (''exact_match'', 1 / 2), (''exact_match_err'', 1 / 2 / sqrt 2),
      (''diversity2'', 3 / 5), (''diversity3'', 1),
      (''avg_length'', 7 / 2), (''avg_length_err'', 3 / 2 / sqrt 2)]
   \<and> compute_metrics ascii_greek_tables (example_scorers\<lparr>sentence_bleu := (\<lambda>rs h. 1)\<rparr>)
       example_records
     = compute_metrics ascii_greek_tables example_scorers example_records"
  using compute_metrics_dictionary [OF example_hyps(1,2), of ascii_greek_tables example_scorers
      "\<lambda>rs h. 1"]
  unfolding example_em example_rouge1 example_rougeL example_lengths example_hyps(3)
    arithmetic_mean_pair population_std_pair example_diversity2 example_diversity3
  by simp

text \<open>
  The claim C1 as stated fails: on the two example records the dictionary has the ten
  items above and no BLEU score, and it is the same for two \<open>sentence_bleu\<close> functions
  that give \<open>bleu_score\<close> different values. With an empty reference list no dictionary
  is returned at all.
\<close>

theorem compute_metrics_dictionary_counterexample:
  "bleu_score example_scorers (str ''the cat'') [str ''a cat'']
     \<noteq> bleu_score (example_scorers\<lparr>sentence_bleu := (\<lambda>rs h. 1)\<rparr>) (str ''the cat'') [str ''a cat'']
   \<and> compute_metrics ascii_greek_tables (example_scorers\<lparr>sentence_bleu := (\<lambda>rs h. 1)\<rparr>)
       example_records
     = compute_metrics ascii_greek_tables example_scorers example_records
   \<and> map fst (projr (compute_metrics ascii_greek_tables example_scorers example_records))
     = [''rouge1'', ''rouge1_err'', ''rougeL'', ''rougeL_err'', ''exact_match'',
        ''exact_match_err'', ''diversity2'', ''diversity3'', ''avg_length'', ''avg_length_err'']
   \<and> compute_metrics ascii_greek_tables example_scorers
         [\<lparr>prompt = str ''q'', reference = [], generation = str ''a''\<rparr>] = Inl ValueError"
proof -
  have h3: "\<exists>r\<in>set [\<lparr>prompt = str ''q'', reference = [], generation = str ''a''\<rparr>]. reference r = []"
    by simp
  have u: "rouge1_fmeasure (example_scorers\<lparr>sentence_bleu := (\<lambda>rs h. 1)\<rparr>) =
      rouge1_fmeasure example_scorers"
    "rougeL_fmeasure (example_scorers\<lparr>sentence_bleu := (\<lambda>rs h. 1)\<rparr>) =
      rougeL_fmeasure example_scorers"
    by simp_all
  show ?thesis
    by (simp add: compute_metrics_eq [OF example_hyps(1,2)] compute_metrics_fail [OF h3]
        bleu_score_def rouge_eta u) (simp add: example_scorers_def)
qed

text \<open>
  C9: \<open>metric_max_over_references\<close> raises \<open>ValueError\<close> (the maximum of an empty
  sequence) when the list of references is empty, so \<open>compute_metrics\<close> fails on a list
  with a record whose \<open>reference\<close> list is empty; for a non-empty list of references it
  returns the greatest of the values \<open>metric_fn(prediction, r)\<close>.
\<close>

theorem metric_max_over_references_max:
  "metric_max_over_references metric_fn prediction [] = Inl ValueError
   \<and> ((\<exists>r\<in>set data. reference r = []) \<longrightarrow> compute_metrics U lib data = Inl ValueError)
   \<and> (references \<noteq> [] \<longrightarrow>
        metric_max_over_references metric_fn prediction references =
          Inr (Max (metric_fn prediction ` set references)))"
  using metric_max_empty metric_max_nonempty compute_metrics_fail by blast

theorem metric_max_over_references_max_witness:
  "metric_max_over_references (exact_match ascii_greek_tables) (str ''a'') [str ''b'', str ''A.'']
     = Inr 1
   \<and> compute_metrics ascii_greek_tables example_scorers
         [\<lparr>prompt = str ''q'', reference = [str ''a''], generation = str ''a''\<rparr>,
          \<lparr>prompt = str ''q'', reference = [], generation = str ''a''\<rparr>] = Inl ValueError"
proof -
  have e0: "exact_match ascii_greek_tables (str ''a'') (str ''b'') = 0"
    by (simp add: string_eval)
  have e1: "exact_match ascii_greek_tables (str ''a'') (str ''A.'') = 1"
    by (simp add: string_eval)
  show ?thesis
    using metric_max_over_references_max [of "exact_match ascii_greek_tables" "str ''a''"
        "[\<lparr>prompt = str ''q'', reference = [str ''a''], generation = str ''a''\<rparr>,
          \<lparr>prompt = str ''q'', reference = [], generation = str ''a''\<rparr>]"
        ascii_greek_tables example_scorers "[str ''b'', str ''A.'']"]
    by (simp add: e0 e1)
qed
section \<open>Properties of the reward filter script\<close>

lemma percentage_count: "nat \<lfloor>real n * percentage\<rfloor> = n div 10"
proof -
  have "real n * percentage = real n / real 10" by (simp add: percentage_def)
  then have "\<lfloor>real n * percentage\<rfloor> = \<lfloor>real n / real 10\<rfloor>" by (simp only:)
  also have "\<dots> = int (n div 10)" by (rule floor_divide_of_nat_eq)
  finally show ?thesis by simp
qed

lemma sorted_reverse_ok:
  assumes "\<forall>x\<in>set xs. key x = Inr (score x)"
  shows "\<exists>s. sorted_reverse key xs = Inr s \<and> mset s = mset xs
           \<and> sorted_wrt (\<lambda>a b. score a \<ge> score b) s"
proof -
  let ?Z = "zip (map score xs) xs"
  let ?S = "rev (sort_key fst (rev ?Z))"
  have Z: "?Z = map (\<lambda>x. (score x, x)) xs" by (induction xs) simp_all
  have res: "sorted_reverse key xs = Inr (map snd ?S)"
    using comprehension_ok [of xs key score] assms by (simp add: sorted_reverse_def)
  have m: "mset ?S = mset ?Z" by simp
  have "mset (map snd ?S) = image_mset snd (mset ?S)" by simp
  also have "\<dots> = mset (map snd ?Z)" by (simp only: m mset_map)
  also have "\<dots> = mset xs" by (simp add: Z o_def)
  finally have ms: "mset (map snd ?S) = mset xs" .
  have "set ?S = set ?Z" using m by (rule mset_eq_setD)
  then have pairs: "\<forall>p\<in>set ?S. fst p = score (snd p)" by (auto simp: Z)
  have "sorted (map fst (sort_key fst (rev ?Z)))" by (rule sorted_sort_key)
  then have "sorted_wrt (\<lambda>a b. a \<ge> b) (rev (map fst (sort_key fst (rev ?Z))))"
    by (simp add: sorted_wrt_rev)
  then have "sorted_wrt (\<lambda>a b. a \<ge> b) (map fst ?S)" by (simp add: rev_map)
  moreover have "map fst ?S = map score (map snd ?S)" using pairs by simp
  ultimately have "sorted_wrt (\<lambda>a b. score a \<ge> score b) (map snd ?S)"
    by (simp add: sorted_wrt_map)
  then show ?thesis using res ms by blast
qed

lemma top_of_sorted:
  assumes "sorted_wrt (\<lambda>a b. score a \<ge> (score b :: 'k::linorder)) s" "mset s = mset xs"
  shows "mset (take k s) \<subseteq># mset xs"
    and "\<forall>x\<in>set (take k s). \<forall>y\<in>#mset xs - mset (take k s). score y \<le> score x"
    and "sorted_wrt (\<lambda>a b. score a \<ge> score b) (take k s)"
proof -
  have parts: "mset xs = mset (take k s) + mset (drop k s)"
    by (metis append_take_drop_id assms(2) mset_append)
  then show "mset (take k s) \<subseteq># mset xs" by simp
  have rest: "mset xs - mset (take k s) = mset (drop k s)" using parts by simp
  have "sorted_wrt (\<lambda>a b. score a \<ge> score b) (take k s @ drop k s)" using assms(1) by simp
  then have "\<forall>x\<in>set (take k s). \<forall>y\<in>set (drop k s). score y \<le> score x"
    and "sorted_wrt (\<lambda>a b. score a \<ge> score b) (take k s)"
    by (simp_all only: sorted_wrt_append) blast+
  then show "\<forall>x\<in>set (take k s). \<forall>y\<in>#mset xs - mset (take k s). score y \<le> score x"
    and "sorted_wrt (\<lambda>a b. score a \<ge> score b) (take k s)"
    by (simp_all add: rest)
qed

lemma sorted_reverse_fail:
  assumes "xs \<noteq> []" "\<forall>x\<in>set xs. key x = Inl e"
  shows "sorted_reverse key xs = Inl e"
proof -
  have "comprehension key xs = Inl e"
    using assms by (intro comprehension_fails) (auto simp: neq_Nil_conv)
  then show ?thesis by (simp add: sorted_reverse_def)
qed

text \<open>
  C2, as amended: when every input record is an object with a \<open>reward\<close> on which
  \<open>sum\<close> returns a number, the script writes \<open>int(0.1 * n)\<close> records, that is
  \<open>n div 10\<close> of the \<open>n\<close> input records, so none when \<open>n < 10\<close>. Every written record
  is an input record (as often at most as it occurs in the input), every written record
  has a cumulative reward \<open>sum(x['reward'])\<close> at least as large as every input record
  that is not written, and the records are written in non-increasing order of
  cumulative reward. \<open>cumulative\<close> is the number \<open>sum\<close> returns for a record's reward.
\<close>

theorem filter_script_top:
  assumes "\<forall>x\<in>set all_data. \<exists>kvs v. x = JObj kvs
             \<and> map_of kvs ''reward'' = Some v \<and> builtin_sum v = Inr (cumulative x)"
  shows "\<exists>out. filter_script builtin_sum all_data = Inr out
     \<and> int (length out) = \<lfloor>0.1 * real (length all_data)\<rfloor>
     \<and> length out = length all_data div 10
     \<and> (length all_data < 10 \<longrightarrow> out = [])
     \<and> mset out \<subseteq># mset all_data
     \<and> (\<forall>x\<in>set out. \<forall>y\<in>#mset all_data - mset out. cumulative y \<le> cumulative x)
     \<and> sorted_wrt (\<lambda>a b. cumulative a \<ge> cumulative b) out"
proof -
  let ?k = "length all_data div 10"
  have keys: "\<forall>x\<in>set all_data. sort_key_fn builtin_sum x = Inr (cumulative x)"
  proof
    fix x assume "x \<in> set all_data"
    then obtain kvs v where "x = JObj kvs" "map_of kvs ''reward'' = Some v"
      "builtin_sum v = Inr (cumulative x)"
      using assms by blast
    then show "sort_key_fn builtin_sum x = Inr (cumulative x)" by simp
  qed
  from sorted_reverse_ok [OF keys]
  obtain s where s: "sorted_reverse (sort_key_fn builtin_sum) all_data = Inr s"
    "mset s = mset all_data" "sorted_wrt (\<lambda>a b. cumulative a \<ge> cumulative b) s"
    by blast
  have out: "filter_script builtin_sum all_data = Inr (take ?k s)"
    by (simp add: filter_script_def s(1) percentage_count)
  have "length s = length all_data" using s(2) by (rule mset_eq_length)
  then have len: "length (take ?k s) = ?k" by simp
  have fl: "int (length (take ?k s)) = \<lfloor>0.1 * real (length all_data)\<rfloor>"
  proof -
    have "0.1 * real (length all_data) = real (length all_data) / real 10" by simp
    then have "\<lfloor>0.1 * real (length all_data)\<rfloor> = \<lfloor>real (length all_data) / real 10\<rfloor>"
      by (simp only:)
    also have "\<dots> = int ?k" by (rule floor_divide_of_nat_eq)
    finally show ?thesis using len by simp
  qed
  have small: "length all_data < 10 \<longrightarrow> take ?k s = []" by simp
  from top_of_sorted [OF s(3) s(2), of ?k] out len fl small
  show ?thesis by blast
qed

text \<open>
  An example with twenty records whose rewards are lists of integers, on which \<open>sum\<close>
  is the exact sum. The two records written are the one with the reward sum 12 and the
  first of the two with the sum 9.
\<close>

theorem filter_script_top_witness:
  "filter_script
     (\<lambda>v. case v of JArr vs \<Rightarrow> Inr (sum_list (map (\<lambda>u. case u of JInt i \<Rightarrow> i | _ \<Rightarrow> 0) vs))
           | _ \<Rightarrow> Inl TypeError)
     (map (\<lambda>(i, rs). JObj [(''id'', JInt i), (''reward'', JArr (map JInt rs))])
        [(0, [1]), (1, [2, 3]), (2, [0]), (3, [4]), (4, [1, 1]), (5, [3, 3]), (6, [2]),
         (7, [5, 7]), (8, [7]), (9, [3]), (10, [4, 4]), (11, [1, 2, 3]), (12, [0, 0]),
         (13, [4, 5]), (14, [6]), (15, [2, 2]), (16, [8]), (17, [9]), (18, [1]),
         (19, [3, 3, 2])])
   = Inr [JObj [(''id'', JInt 7), (''reward'', JArr [JInt 5, JInt 7])],
          JObj [(''id'', JInt 13), (''reward'', JArr [JInt 4, JInt 5])]]
   \<and> mset [JObj [(''id'', JInt 7), (''reward'', JArr [JInt 5, JInt 7])],
            JObj [(''id'', JInt 13), (''reward'', JArr [JInt 4, JInt 5])]]
       \<subseteq># mset (map (\<lambda>(i, rs). JObj [(''id'', JInt i), (''reward'', JArr (map JInt rs))])
        [(0, [1]), (1, [2, 3]), (2, [0]), (3, [4]), (4, [1, 1]), (5, [3, 3]), (6, [2]),
         (7, [5, 7]), (8, [7]), (9, [3]), (10, [4, 4]), (11, [1, 2, 3]), (12, [0, 0]),
         (13, [4, 5]), (14, [6]), (15, [2, 2]), (16, [8]), (17, [9]), (18, [1]),
         (19, [3, 3, 2])])"
proof -
  let ?sum = "\<lambda>v. case v of JArr vs \<Rightarrow>
                  Inr (sum_list (map (\<lambda>u. case u of JInt i \<Rightarrow> i | _ \<Rightarrow> 0) vs))
                | _ \<Rightarrow> (Inl TypeError :: error + int)"
  let ?mk = "\<lambda>(i, rs). JObj [(''id'', JInt i), (''reward'', JArr (map JInt rs))]"
  let ?data = "map ?mk
        [(0, [1]), (1, [2, 3]), (2, [0]), (3, [4]), (4, [1, 1]), (5, [3, 3]), (6, [2]),
         (7, [5, 7]), (8, [7]), (9, [3]), (10, [4, 4]), (11, [1, 2, 3]), (12, [0, 0]),
         (13, [4, 5]), (14, [6]), (15, [2, 2]), (16, [8]), (17, [9]), (18, [1]),
         (19, [3, 3, 2])]"
  let ?cum = "\<lambda>x. case sort_key_fn ?sum x of Inr k \<Rightarrow> k | Inl e \<Rightarrow> 0"
  have h: "\<forall>x\<in>set ?data. \<exists>kvs v. x = JObj kvs
             \<and> map_of kvs ''reward'' = Some v \<and> ?sum v = Inr (?cum x)"
    by simp
  from filter_script_top [of ?data ?sum ?cum, OF h]
  obtain out where o: "filter_script ?sum ?data = Inr out" "mset out \<subseteq># mset ?data"
    by blast
  have e: "filter_script ?sum ?data = Inr [?mk (7, [5, 7]), ?mk (13, [4, 5])]"
    by (simp add: filter_script_def sorted_reverse_def percentage_def)
  then have "out = [?mk (7, [5, 7]), ?mk (13, [4, 5])]" using o(1) by simp
  then have "mset [?mk (7, [5, 7]), ?mk (13, [4, 5])] \<subseteq># mset ?data" using o(2) by simp
  then show ?thesis using e by simp
qed

text \<open>
  The claim C2 as stated fails when \<open>sum\<close> raises: on the reward list
  \<open>[10**400, 0.5]\<close>, a list of numbers, it raises \<open>OverflowError\<close> (the integer is too
  large to convert to a float). With ten such records the script ends with that error
  and writes no record, where \<open>int(0.1 * 10)\<close> is 1.
\<close>

theorem filter_script_top_counterexample:
  "filter_script (\<lambda>v. if v = JArr [JInt (10 ^ 400), JFloat (1 / 2)]
                       then Inl OverflowError else Inr (0::int))
     (replicate 10 (JObj [(''reward'', JArr [JInt (10 ^ 400), JFloat (1 / 2)])]))
   = Inl OverflowError
   \<and> \<lfloor>0.1 * real (length
         (replicate 10 (JObj [(''reward'', JArr [JInt (10 ^ 400), JFloat (1 / 2)])])))\<rfloor> = 1"
proof -
  define big :: int where "big = 10 ^ 400"
  let ?data = "replicate 10 (JObj [(''reward'', JArr [JInt big, JFloat (1 / 2)])])"
  let ?sum = "\<lambda>v. if v = JArr [JInt big, JFloat (1 / 2)]
                       then Inl OverflowError else Inr (0::int)"
  have "?data \<noteq> []" by simp
  moreover have "\<forall>x\<in>set ?data. sort_key_fn ?sum x = Inl OverflowError" by simp
  ultimately have "sorted_reverse (sort_key_fn ?sum) ?data = Inl OverflowError"
    by (rule sorted_reverse_fail)
  then have "filter_script ?sum ?data = Inl OverflowError
      \<and> \<lfloor>0.1 * real (length ?data)\<rfloor> = 1"
    by (simp add: filter_script_def)
  then show ?thesis unfolding big_def .
qed

end
